theory Spec2Isabelle
  imports Main "HOL-Library.Sublist"
begin

section \<open>The configuration-string parser\<close>

text \<open>
  Go strings are byte sequences; they are modelled as \<open>string\<close> (a list of \<open>char\<close>).
  Both separators used by \<open>ParseConfstr\<close> are one-byte literals, so the helpers of the
  Go package \<open>strings\<close> are modelled for a separator of one byte.
\<close>

text \<open>\<open>strings.Index(s, sep)\<close>: the position of the first \<open>sep\<close>, or none (\<open>-1\<close> in Go).\<close>

fun Index :: "string \<Rightarrow> char \<Rightarrow> nat option" where
  "Index [] c = None"
| "Index (x # xs) c = (if x = c then Some 0 else map_option Suc (Index xs c))"

text \<open>\<open>strings.Count(s, sep)\<close>: the number of occurrences of \<open>sep\<close>.\<close>

definition Count :: "string \<Rightarrow> char \<Rightarrow> nat" where
  "Count s c = length (filter (\<lambda>x. x = c) s)"

text \<open>\<open>strings.Contains(s, sep)\<close> is \<open>Index(s, sep) >= 0\<close>.\<close>

definition Contains :: "string \<Rightarrow> char \<Rightarrow> bool" where
  "Contains s c = (Index s c \<noteq> None)"

text \<open>
  The loop of \<open>strings.genSplit\<close>: \<open>for i < n\<close> cuts at the next separator, and the
  remainder becomes the last element. The first argument counts the cuts still allowed
  (\<open>n - i\<close>).
\<close>

fun genSplit_loop :: "nat \<Rightarrow> string \<Rightarrow> char \<Rightarrow> string list" where
  "genSplit_loop 0 s c = [s]"
| "genSplit_loop (Suc k) s c =
     (case Index s c of
        None \<Rightarrow> [s]
      | Some m \<Rightarrow> take m s # genSplit_loop k (drop (Suc m) s) c)"

text \<open>
  \<open>strings.genSplit(s, sep, 0, n)\<close>: \<open>n = 0\<close> gives nil, a negative \<open>n\<close> means all
  substrings, and \<open>n\<close> is capped at \<open>len(s) + 1\<close>; then at most \<open>n - 1\<close> cuts are made.
\<close>

definition genSplit :: "string \<Rightarrow> char \<Rightarrow> int \<Rightarrow> string list" where
  "genSplit s c n =
     (if n = 0 then []
      else let n1 = (if n < 0 then Count s c + 1 else nat n);
               n2 = (if n1 > length s + 1 then length s + 1 else n1)
           in genSplit_loop (n2 - 1) s c)"

definition Split :: "string \<Rightarrow> char \<Rightarrow> string list" where
  "Split s c = genSplit s c (- 1)"

definition SplitN :: "string \<Rightarrow> char \<Rightarrow> int \<Rightarrow> string list" where
  "SplitN s c n = genSplit s c n"

text \<open>The errors \<open>ParseConfstr\<close> returns, one constructor for each message it formats.\<close>

datatype conf_error =
    ConfigNotUsed string
  | InvalidConfig string string
  | FirstParameterHasSeparator string string
  | ParseKeyValueFailed string string
  | KeyHasEmptyVal string string string

text \<open>
  The configuration string is read from \<open>globalConfig\<close> when that map is not nil, and
  from the process environment (\<open>os.LookupEnv\<close>, here the map \<open>environ\<close>) otherwise.
\<close>

definition lookup_config ::
  "string \<Rightarrow> (string \<rightharpoonup> string) option \<Rightarrow> (string \<rightharpoonup> string) \<Rightarrow> string option" where
  "lookup_config key globalConfig environ =
     (case globalConfig of Some m \<Rightarrow> m key | None \<Rightarrow> environ key)"

text \<open>The loop \<open>for i := 1; i < len(config); i++\<close> over the segments after the mode.\<close>

fun parse_pairs ::
  "string \<Rightarrow> string \<Rightarrow> string list \<Rightarrow> (string \<rightharpoonup> string) \<Rightarrow> conf_error + (string \<rightharpoonup> string)" where
  "parse_pairs key configString [] opts = Inr opts"
| "parse_pairs key configString (seg # rest) opts =
     (let pair = SplitN seg (CHR ''='') 1 in
      if length pair \<noteq> 2 then Inl (ParseKeyValueFailed key configString)
      else if pair ! 1 = [] then Inl (KeyHasEmptyVal key configString (pair ! 0))
      else parse_pairs key configString rest (opts(pair ! 0 \<mapsto> pair ! 1)))"

definition ParseConfstr ::
  "string \<Rightarrow> (string \<rightharpoonup> string) option \<Rightarrow> (string \<rightharpoonup> string)
     \<Rightarrow> conf_error + (string \<times> (string \<rightharpoonup> string))" where
  "ParseConfstr key globalConfig environ =
     (case lookup_config key globalConfig environ of
        None \<Rightarrow> Inl (ConfigNotUsed key)
      | Some configString \<Rightarrow>
          (case Split configString (CHR '';'') of
             [] \<Rightarrow> Inl (InvalidConfig key configString)
           | mode # segs \<Rightarrow>
               if Contains mode (CHR ''='')
               then Inl (FirstParameterHasSeparator key configString)
               else (case parse_pairs key configString segs Map.empty of
                       Inl e \<Rightarrow> Inl e
                     | Inr opts \<Rightarrow> Inr (mode, opts))))"

section \<open>The serial job queue\<close>

text \<open>
  The queue is used by several goroutines at once, so it is modelled as a transition
  system: a state holding the \<open>JobQueue\<close> struct, the channel and the contexts it refers
  to, the goroutine executing \<open>Run\<close> and the goroutines calling the other methods; every
  statement of the source that touches shared data is one transition. A schedule (a list
  of actions) chooses which goroutine moves next, and which ready case a \<open>select\<close> takes.
  Memory is sequentially consistent.
\<close>

subsection \<open>Values\<close>

text \<open>Run-time panics of Go that the methods can raise.\<close>

datatype fault =
    NilDereference
  | SendOnClosedChannel
  | CloseOfClosedChannel
  | MakechanSizeOutOfRange
  | NilParentContext
  | OperationFault nat

text \<open>
  A \<open>JobOp\<close> handed to the queue by a caller is nil or an opaque function. The queue
  never inspects it; all it can observe is whether a call of it returns or panics. The
  number identifies the function.
\<close>

datatype behaviour = Returns | Panics

datatype func = Nil | Func nat behaviour

text \<open>
  The values that travel through the channel \<open>q.op\<close>: a caller's function as it is
  (\<open>Enqueue\<close>), the closure that \<open>Join\<close> builds around it, and the closure that
  \<open>JoinTimeout\<close> builds, which also captures \<open>started\<close> and \<open>startTimeout\<close>
  (nanoseconds). A closure captures its completion channel \<open>c\<close>; \<open>c\<close> is private to one
  call, and is identified here by the goroutine that made the call and waits on it.
\<close>

datatype jobop =
    Plain func
  | JoinWrapper nat func
  | JoinTimeoutWrapper nat int int func

fun owner :: "jobop \<Rightarrow> nat option" where
  "owner (Plain f) = None"
| "owner (JoinWrapper t f) = Some t"
| "owner (JoinTimeoutWrapper t started startTimeout f) = Some t"

fun wrapped :: "jobop \<Rightarrow> func" where
  "wrapped (Plain f) = f"
| "wrapped (JoinWrapper t f) = f"
| "wrapped (JoinTimeoutWrapper t started startTimeout f) = f"

text \<open>A Go channel: its buffer, its capacity, and whether it has been closed.\<close>

record 'a chan =
  buf :: "'a list"
  cap :: nat
  closed :: bool

text \<open>
  The struct \<open>JobQueue\<close>. \<open>logger\<close> records whether the interface value is non-nil;
  \<open>ctx\<close> and \<open>cancel\<close> are nil (\<open>None\<close>) or refer to a context by its number.
\<close>

record JobQueue =
  name :: string
  logger :: bool
  ctx :: "nat option"
  cancel :: "nat option"
  op :: "jobop chan"

datatype level = LOG_DEBUG | LOG_WARNING | LOG_CRIT

text \<open>What the program writes: messages to the logger and lines to standard output.\<close>

datatype written =
    Message level string string "fault option"
  | Println string "fault option"

text \<open>The parent context passed to \<open>Initialize\<close>: nil, not yet cancelled, or cancelled.\<close>

datatype parent = NilContext | LiveContext | DoneContext

text \<open>The method calls a goroutine makes, one after the other.\<close>

datatype call =
    Initialize parent
  | Stop
  | Enqueue func
  | Join func
  | JoinTimeout int func

text \<open>
  Where a calling goroutine stands in its current call: before its statement number
  \<open>k\<close>; in \<open>JoinTimeout\<close> after \<open>started := time.Now()\<close> and before the send; blocked
  in \<open><-c\<close>; or stopped by a panic.
\<close>

datatype position = Line nat | Submitting int | Awaiting | Panicked fault

record goroutine =
  todo :: "call list"
  at :: position

text \<open>
  Where the goroutine executing \<open>Run\<close> stands: not started; at the top of the \<open>for\<close>
  loop; inside \<open>select\<close> with the channel operands evaluated (the number is the context
  whose \<open>Done\<close> channel it waits on); holding a received operation, the panic handler
  deferred, before \<open>op(q.ctx)\<close>; inside the caller's function; inside a wrapper at
  \<open>c <- v\<close>; returned; or ended by a panic that no handler recovered.
\<close>

datatype run_state =
    NotStarted
  | Loop
  | Select nat
  | Call jobop
  | Body jobop
  | Signal jobop bool
  | RunReturned
  | RunPanicked fault

text \<open>What an observer of the system sees happen, in order.\<close>

datatype event =
    Accepted jobop
  | Invoked jobop "nat option"
  | Begun nat
  | Ended nat
  | Faulted nat
  | Return nat call "bool option"

record sys =
  q :: JobQueue
  ctxs :: "bool list"
  out :: "written list"
  clock :: int
  run :: run_state
  handlers :: nat
  goroutines :: "goroutine list"
  trace :: "event list"

text \<open>
  \<open>ctxs\<close> holds, for each context created so far, whether its \<open>Done\<close> channel is
  closed. \<open>handlers\<close> counts the \<open>LogPanic\<close> calls deferred in the frame of \<open>Run\<close>: a
  \<open>defer\<close> statement in Go is bound to the function, not to the loop iteration, so each
  iteration that receives an operation adds one.
\<close>

definition emit :: "event \<Rightarrow> sys \<Rightarrow> sys" where
  "emit e s = s\<lparr>trace := trace s @ [e]\<rparr>"

definition put :: "written \<Rightarrow> sys \<Rightarrow> sys" where
  "put x s = s\<lparr>out := out s @ [x]\<rparr>"

definition set_op :: "jobop chan \<Rightarrow> sys \<Rightarrow> sys" where
  "set_op c s = s\<lparr>q := (q s)\<lparr>op := c\<rparr>\<rparr>"

subsection \<open>Logging\<close>

text \<open>\<open>q.logger.Message(level, kind, message)\<close>: a method call on a nil interface panics.\<close>

definition log_Message :: "level \<Rightarrow> string \<Rightarrow> string \<Rightarrow> sys \<Rightarrow> fault + sys" where
  "log_Message lvl kind msg s =
     (if logger (q s) then Inr (put (Message lvl kind msg None) s)
      else Inl NilDereference)"

text \<open>
  \<open>LogPanic(l, kind)\<close>, run as a deferred call. The first component is the panic in
  flight, if any: \<open>recover()\<close> returns it and stops the panicking. The stack trace that
  the source formats is not modelled.
\<close>

definition LogPanic :: "bool \<Rightarrow> string \<Rightarrow> fault option \<times> sys \<Rightarrow> fault option \<times> sys" where
  "LogPanic l kind ps =
     (case fst ps of
        None \<Rightarrow> ps
      | Some r \<Rightarrow>
          (let s1 = put (Println ''recovered from panic: '' (Some r)) (snd ps);
               s2 = put (Println ''stacktrace from panic: '' None) s1
           in (None, if l then put (Message LOG_CRIT kind ''panic (err, stacktrace)'' (Some r)) s2
                     else s2)))"

subsection \<open>NewJobQueue, Initialize, Stop\<close>

text \<open>
  \<open>NewJobQueue(name, logger, backlog)\<close>, in a fresh system with the given calling
  goroutines. \<open>make(chan JobOp, backlog)\<close> panics on a negative size.
\<close>

definition NewJobQueue :: "string \<Rightarrow> bool \<Rightarrow> int \<Rightarrow> call list list \<Rightarrow> fault + sys" where
  "NewJobQueue nm lg backlog programs =
     (if backlog < 0 then Inl MakechanSizeOutOfRange
      else Inr \<lparr>q = \<lparr>name = nm, logger = lg, ctx = None, cancel = None,
                      op = \<lparr>buf = [], cap = nat backlog, closed = False\<rparr>\<rparr>,
                 ctxs = [], out = [], clock = 0, run = NotStarted, handlers = 0,
                 goroutines = map (\<lambda>cs. \<lparr>todo = cs, at = Line 0\<rparr>) programs,
                 trace = []\<rparr>)"

text \<open>\<open>q.ctx, q.cancel = context.WithCancel(ctx)\<close>; a nil parent panics.\<close>

definition WithCancel :: "parent \<Rightarrow> sys \<Rightarrow> fault + sys" where
  "WithCancel p s =
     (if p = NilContext then Inl NilParentContext
      else Inr (s\<lparr>ctxs := ctxs s @ [p = DoneContext],
                  q := (q s)\<lparr>ctx := Some (length (ctxs s)), cancel := Some (length (ctxs s))\<rparr>\<rparr>))"

text \<open>\<open>q.cancel()\<close>: calling a nil function value panics.\<close>

definition call_cancel :: "sys \<Rightarrow> fault + sys" where
  "call_cancel s =
     (case cancel (q s) of
        None \<Rightarrow> Inl NilDereference
      | Some k \<Rightarrow> Inr (s\<lparr>ctxs := (ctxs s)[k := True]\<rparr>))"

text \<open>\<open>close(q.op)\<close>: closing a closed channel panics.\<close>

definition close_op :: "sys \<Rightarrow> fault + sys" where
  "close_op s =
     (if closed (op (q s)) then Inl CloseOfClosedChannel
      else Inr (set_op ((op (q s))\<lparr>closed := True\<rparr>) s))"

text \<open>The bodies of \<open>Initialize\<close> and \<open>Stop\<close>, statement by statement.\<close>

definition Initialize_body :: "parent \<Rightarrow> (sys \<Rightarrow> fault + sys) list" where
  "Initialize_body p =
     [\<lambda>s. log_Message LOG_DEBUG ''queue'' (name (q s) @ '' Queue::Initialize'') s,
      WithCancel p]"

definition Stop_body :: "(sys \<Rightarrow> fault + sys) list" where
  "Stop_body =
     [\<lambda>s. log_Message LOG_DEBUG ''queue'' (name (q s) @ '' Queue::Stop'') s,
      call_cancel,
      close_op,
      \<lambda>s. Inr (s\<lparr>q := (q s)\<lparr>ctx := None\<rparr>\<rparr>),
      \<lambda>s. Inr (s\<lparr>q := (q s)\<lparr>cancel := None\<rparr>\<rparr>)]"

text \<open>A body run from start to end with no other goroutine in between.\<close>

fun exec :: "(sys \<Rightarrow> fault + sys) list \<Rightarrow> sys \<Rightarrow> fault + sys" where
  "exec [] s = Inr s"
| "exec (f # fs) s = (case f s of Inl e \<Rightarrow> Inl e | Inr s' \<Rightarrow> exec fs s')"

text \<open>\<open>q.Initialize(ctx)\<close> and \<open>q.Stop()\<close> as whole calls.\<close>

definition JobQueue_Initialize :: "parent \<Rightarrow> sys \<Rightarrow> fault + sys" where
  "JobQueue_Initialize p s = exec (Initialize_body p) s"

definition JobQueue_Stop :: "sys \<Rightarrow> fault + sys" where
  "JobQueue_Stop s = exec Stop_body s"

definition body_of :: "call \<Rightarrow> (sys \<Rightarrow> fault + sys) list" where
  "body_of c = (case c of Initialize p \<Rightarrow> Initialize_body p | Stop \<Rightarrow> Stop_body | _ \<Rightarrow> [])"

subsection \<open>Run\<close>

text \<open>
  \<open>Run\<close> returns, or a panic \<open>p\<close> unwinds its frame: the deferred calls run last-in
  first-out, first every \<open>LogPanic\<close> installed in the loop, then the \<open>Message\<close> deferred
  at the top (its receiver was checked non-nil when \<open>Run\<close> began).
\<close>

definition Run_exit :: "fault option \<Rightarrow> sys \<Rightarrow> sys" where
  "Run_exit p s =
     (let ps = ((LogPanic (logger (q s)) ''queue'') ^^ handlers s) (p, s);
          s1 = put (Message LOG_WARNING ''queue'' (name (q s) @ '' Queue::Run end'') None) (snd ps)
      in s1\<lparr>run := (case fst ps of None \<Rightarrow> RunReturned | Some f \<Rightarrow> RunPanicked f),
             handlers := 0\<rparr>)"

text \<open>
  The case \<open>op := <-q.op\<close> has received \<open>x\<close>: a nil operation makes \<open>Run\<close> return;
  otherwise \<open>defer LogPanic(q.logger, "queue")\<close> adds a handler.
\<close>

definition received :: "jobop \<Rightarrow> sys \<Rightarrow> sys" where
  "received x s =
     (if x = Plain Nil then Run_exit None s
      else s\<lparr>run := Call x, handlers := Suc (handlers s)\<rparr>)"

text \<open>Calling the caller's function \<open>f\<close> from \<open>x\<close>: calling nil panics.\<close>

definition enter :: "jobop \<Rightarrow> sys \<Rightarrow> sys" where
  "enter x s =
     (case wrapped x of
        Nil \<Rightarrow> Run_exit (Some NilDereference) s
      | Func i b \<Rightarrow> (emit (Begun i) s)\<lparr>run := Body x\<rparr>)"

text \<open>
  \<open>op(q.ctx)\<close>: the field \<open>q.ctx\<close> is read and \<open>x\<close> is called. A plain operation and a
  \<open>Join\<close> wrapper call the function at once; a \<open>JoinTimeout\<close> wrapper first tests
  \<open>time.Since(started) >= startTimeout\<close> and goes to \<open>c <- false\<close> when it holds.
\<close>

definition invoke :: "jobop \<Rightarrow> sys \<Rightarrow> sys" where
  "invoke x s =
     (let s1 = emit (Invoked x (ctx (q s))) s in
      case x of
        JoinTimeoutWrapper t started startTimeout f \<Rightarrow>
          if clock s - started \<ge> startTimeout then s1\<lparr>run := Signal x False\<rparr> else enter x s1
      | _ \<Rightarrow> enter x s1)"

text \<open>
  The caller's function finishes. When it returns, a plain operation is done and the loop
  goes on, while a wrapper goes to \<open>c <- true\<close>; when it panics, the rest of the wrapper
  is skipped and the panic unwinds \<open>Run\<close>.
\<close>

definition complete :: "jobop \<Rightarrow> sys \<Rightarrow> sys" where
  "complete x s =
     (case wrapped x of
        Nil \<Rightarrow> s
      | Func i Panics \<Rightarrow> Run_exit (Some (OperationFault i)) (emit (Faulted i) s)
      | Func i Returns \<Rightarrow>
          (emit (Ended i) s)\<lparr>run := (if owner x = None then Loop else Signal x True)\<rparr>)"

text \<open>A calling goroutine returns from its current call with result \<open>r\<close>.\<close>

definition finish :: "nat \<Rightarrow> bool option \<Rightarrow> sys \<Rightarrow> sys" where
  "finish t r s =
     (let g = goroutines s ! t in
      emit (Return t (hd (todo g)) r)
        (s\<lparr>goroutines := (goroutines s)[t := \<lparr>todo = tl (todo g), at = Line 0\<rparr>]\<rparr>))"

definition move :: "nat \<Rightarrow> position \<Rightarrow> sys \<Rightarrow> sys" where
  "move t p s = s\<lparr>goroutines := (goroutines s)[t := (goroutines s ! t)\<lparr>at := p\<rparr>]\<rparr>"

text \<open>
  \<open>c <- v\<close> in a wrapper: \<open>c\<close> is unbuffered, so the send happens when the goroutine that
  made the call is at \<open><-c\<close>; that goroutine then returns \<open>v\<close>.
\<close>

definition deliver :: "jobop \<Rightarrow> bool \<Rightarrow> sys \<Rightarrow> sys option" where
  "deliver x v s =
     (case owner x of
        None \<Rightarrow> None
      | Some t \<Rightarrow>
          if t < length (goroutines s) \<and> at (goroutines s ! t) = Awaiting
             \<and> todo (goroutines s ! t) \<noteq> []
          then Some ((finish t (Some v) s)\<lparr>run := Loop\<rparr>)
          else None)"

text \<open>
  One step of \<open>Run\<close> outside \<open>select\<close>. Entering \<open>select\<close> evaluates the operands
  \<open>q.op\<close> and \<open>q.ctx.Done()\<close>; the method call panics when \<open>q.ctx\<close> is nil.
\<close>

definition Run_step :: "sys \<Rightarrow> sys option" where
  "Run_step s =
     (case run s of
        NotStarted \<Rightarrow>
          (case log_Message LOG_DEBUG ''queue'' (name (q s) @ '' Queue::Run'') s of
             Inl e \<Rightarrow> Some (s\<lparr>run := RunPanicked e\<rparr>)
           | Inr s' \<Rightarrow> Some (s'\<lparr>run := Loop\<rparr>))
      | Loop \<Rightarrow>
          (case ctx (q s) of
             None \<Rightarrow> Some (Run_exit (Some NilDereference) s)
           | Some k \<Rightarrow> Some (s\<lparr>run := Select k\<rparr>))
      | Call x \<Rightarrow> Some (invoke x s)
      | Body x \<Rightarrow> Some (complete x s)
      | Signal x v \<Rightarrow> deliver x v s
      | _ \<Rightarrow> None)"

text \<open>
  \<open>select\<close> takes the case \<open>op := <-q.op\<close>: the oldest buffered operation, or nil from
  a closed and empty channel.
\<close>

definition Run_receive :: "sys \<Rightarrow> sys option" where
  "Run_receive s =
     (case run s of
        Select k \<Rightarrow>
          (case buf (op (q s)) of
             x # rest \<Rightarrow> Some (received x (set_op ((op (q s))\<lparr>buf := rest\<rparr>) s))
           | [] \<Rightarrow> if closed (op (q s)) then Some (received (Plain Nil) s) else None)
      | _ \<Rightarrow> None)"

text \<open>\<open>select\<close> takes the case \<open><-q.ctx.Done()\<close>: \<open>Run\<close> returns.\<close>

definition Run_done :: "sys \<Rightarrow> sys option" where
  "Run_done s =
     (case run s of
        Select k \<Rightarrow> if k < length (ctxs s) \<and> ctxs s ! k then Some (Run_exit None s) else None
      | _ \<Rightarrow> None)"

subsection \<open>Enqueue, Join, JoinTimeout\<close>

text \<open>The three ways a channel operation can go.\<close>

datatype attempt = Proceeds sys | Blocks | PanicsWith fault

text \<open>
  \<open>q.op <- x\<close>: a send on a closed channel panics; with room in the buffer the value is
  appended; on an unbuffered channel the value passes to \<open>Run\<close> when \<open>Run\<close> waits in its
  \<open>select\<close>; otherwise the sender blocks.
\<close>

definition send :: "jobop \<Rightarrow> sys \<Rightarrow> attempt" where
  "send x s =
     (if closed (op (q s)) then PanicsWith SendOnClosedChannel
      else if length (buf (op (q s))) < cap (op (q s))
      then Proceeds (emit (Accepted x) (set_op ((op (q s))\<lparr>buf := buf (op (q s)) @ [x]\<rparr>) s))
      else if cap (op (q s)) = 0 \<and> (case run s of Select k \<Rightarrow> True | _ \<Rightarrow> False)
      then Proceeds (received x (emit (Accepted x) s))
      else Blocks)"

text \<open>A statement of \<open>Initialize\<close> or \<open>Stop\<close>, run by goroutine \<open>t\<close> at line \<open>k\<close>.\<close>

definition straight :: "nat \<Rightarrow> (sys \<Rightarrow> fault + sys) list \<Rightarrow> nat \<Rightarrow> sys \<Rightarrow> sys option" where
  "straight t stmts k s =
     (if k < length stmts
      then (case (stmts ! k) s of
              Inl e \<Rightarrow> Some (move t (Panicked e) s)
            | Inr s' \<Rightarrow> Some (if Suc k = length stmts then finish t None s'
                              else move t (Line (Suc k)) s'))
      else None)"

text \<open>
  \<open>Enqueue(op)\<close> is the send alone. \<open>Join\<close> sends its wrapper and then waits in
  \<open><-c\<close>. \<open>JoinTimeout\<close> reads the clock into \<open>started\<close>, then does the same.
\<close>

definition Enqueue_step :: "nat \<Rightarrow> func \<Rightarrow> sys \<Rightarrow> sys option" where
  "Enqueue_step t f s =
     (case send (Plain f) s of
        Proceeds s' \<Rightarrow> Some (finish t None s')
      | Blocks \<Rightarrow> None
      | PanicsWith e \<Rightarrow> Some (move t (Panicked e) s))"

definition submit :: "nat \<Rightarrow> jobop \<Rightarrow> sys \<Rightarrow> sys option" where
  "submit t x s =
     (case send x s of
        Proceeds s' \<Rightarrow> Some (move t Awaiting s')
      | Blocks \<Rightarrow> None
      | PanicsWith e \<Rightarrow> Some (move t (Panicked e) s))"

definition goroutine_step :: "nat \<Rightarrow> sys \<Rightarrow> sys option" where
  "goroutine_step t s =
     (if t < length (goroutines s)
      then (case todo (goroutines s ! t) of
              [] \<Rightarrow> None
            | c # rest \<Rightarrow>
                (case at (goroutines s ! t) of
                   Line k \<Rightarrow>
                     (case c of
                        Enqueue f \<Rightarrow> Enqueue_step t f s
                      | Join f \<Rightarrow> submit t (JoinWrapper t f) s
                      | JoinTimeout startTimeout f \<Rightarrow> Some (move t (Submitting (clock s)) s)
                      | _ \<Rightarrow> straight t (body_of c) k s)
                 | Submitting started \<Rightarrow>
                     (case c of
                        JoinTimeout startTimeout f \<Rightarrow>
                          submit t (JoinTimeoutWrapper t started startTimeout f) s
                      | _ \<Rightarrow> None)
                 | _ \<Rightarrow> None))
      else None)"

subsection \<open>Schedules\<close>

text \<open>
  An action is a step of calling goroutine \<open>t\<close>, a step of \<open>Run\<close>, one of the two cases
  of its \<open>select\<close>, the passing of time, or the cancellation of the parent of context
  \<open>k\<close>. \<open>step\<close> is \<open>None\<close> when the action cannot happen in the state (the goroutine is
  blocked or has ended).
\<close>

datatype action = Go nat | Worker | Receive | CtxDone | Tick nat | ParentCancel nat

definition step :: "action \<Rightarrow> sys \<Rightarrow> sys option" where
  "step a s =
     (case a of
        Go t \<Rightarrow> goroutine_step t s
      | Worker \<Rightarrow> Run_step s
      | Receive \<Rightarrow> Run_receive s
      | CtxDone \<Rightarrow> Run_done s
      | Tick d \<Rightarrow> Some (s\<lparr>clock := clock s + int d\<rparr>)
      | ParentCancel k \<Rightarrow>
          if k < length (ctxs s) then Some (s\<lparr>ctxs := (ctxs s)[k := True]\<rparr>) else None)"

fun steps :: "action list \<Rightarrow> sys \<Rightarrow> sys option" where
  "steps [] s = Some s"
| "steps (a # as) s = (case step a s of None \<Rightarrow> None | Some s' \<Rightarrow> steps as s')"

subsection \<open>Reading a trace\<close>

text \<open>The operations accepted into the channel, and those \<open>Run\<close> has called, in order.\<close>

definition accepted :: "event list \<Rightarrow> jobop list" where
  "accepted tr = concat (map (\<lambda>e. case e of Accepted x \<Rightarrow> [x] | _ \<Rightarrow> []) tr)"

definition invoked :: "event list \<Rightarrow> jobop list" where
  "invoked tr = concat (map (\<lambda>e. case e of Invoked x c \<Rightarrow> [x] | _ \<Rightarrow> []) tr)"

text \<open>
  At most one of the callers' functions runs at a time: reading the trace from the left
  with the function now in progress (if any), a function may begin only when none is in
  progress, and the one that ends or faults is the one in progress.
\<close>

definition after :: "nat option \<Rightarrow> event \<Rightarrow> nat option" where
  "after cur e = (case e of Begun i \<Rightarrow> Some i | Ended i \<Rightarrow> None | Faulted i \<Rightarrow> None | _ \<Rightarrow> cur)"

definition allowed :: "nat option \<Rightarrow> event \<Rightarrow> bool" where
  "allowed cur e =
     (case e of Begun i \<Rightarrow> cur = None | Ended i \<Rightarrow> cur = Some i | Faulted i \<Rightarrow> cur = Some i
      | _ \<Rightarrow> True)"

fun exclusive :: "nat option \<Rightarrow> event list \<Rightarrow> bool" where
  "exclusive cur [] = True"
| "exclusive cur (e # es) = (allowed cur e \<and> exclusive (after cur e) es)"

subsection \<open>Predicates on states\<close>

text \<open>
  The predicates used in the statements and proofs below. Most of them are invariants:
  they hold in every state the system can reach, which is proved for each of them.
\<close>

text \<open>
  The buffer respects its capacity, and what was accepted is what \<open>Run\<close> has called,
  then the operation it holds and has not called yet, then the buffer.
\<close>

definition in_order :: "sys \<Rightarrow> bool" where
  "in_order s \<longleftrightarrow>
     length (buf (op (q s))) \<le> cap (op (q s)) \<and>
     (\<exists>lost. accepted (trace s) = invoked (trace s) @ lost @ buf (op (q s)) \<and>
        (case run s of Call x \<Rightarrow> lost = [x] | RunReturned \<Rightarrow> True | RunPanicked f \<Rightarrow> True
         | _ \<Rightarrow> lost = []))"

text \<open>
  The trace is exclusive, and a function is in progress exactly when \<open>Run\<close> is inside it.
\<close>

definition one_at_a_time :: "sys \<Rightarrow> bool" where
  "one_at_a_time s \<longleftrightarrow>
     exclusive None (trace s) \<and>
     foldl after None (trace s) =
       (case run s of
          Body x \<Rightarrow> (case wrapped x of Func i b \<Rightarrow> Some i | Nil \<Rightarrow> None)
        | _ \<Rightarrow> None)"

text \<open>
  A \<open>Stop\<close> that is past \<open>close(q.op)\<close>, or has returned, has left the channel closed.
\<close>

definition stop_closes :: "sys \<Rightarrow> bool" where
  "stop_closes s \<longleftrightarrow>
     (\<forall>t < length (goroutines s). \<forall>rest k.
        todo (goroutines s ! t) = Stop # rest \<and> at (goroutines s ! t) = Line k \<and> 3 \<le> k
        \<longrightarrow> closed (op (q s)))
     \<and> ((\<exists>u. Return u Stop None \<in> set (trace s)) \<longrightarrow> closed (op (q s)))"

text \<open>
  No call of \<open>Initialize\<close> has set the fields yet: what the state looks like then.
\<close>

definition uninitialized :: "sys \<Rightarrow> bool" where
  "uninitialized s \<longleftrightarrow>
     ctx (q s) = None \<and> cancel (q s) = None \<and> \<not> closed (op (q s)) \<and> handlers s = 0
     \<and> (run s = NotStarted \<or> run s = Loop \<or> (\<exists>e. run s = RunPanicked e))
     \<and> (\<forall>t c r. Return t c r \<in> set (trace s) \<longrightarrow> (\<exists>f. c = Enqueue f))
     \<and> (\<forall>t < length (goroutines s). \<forall>c rest.
           todo (goroutines s ! t) = c # rest \<longrightarrow>
             (\<forall>e. at (goroutines s ! t) = Panicked e \<longrightarrow> c = Stop \<or> (\<exists>p. c = Initialize p))
             \<and> (\<forall>k. at (goroutines s ! t) = Line k \<longrightarrow> c = Stop \<longrightarrow> k \<le> 1))"

text \<open>A call of \<open>Initialize\<close> has returned.\<close>

definition initialize_returned :: "sys \<Rightarrow> bool" where
  "initialize_returned s \<longleftrightarrow> (\<exists>t p. Return t (Initialize p) None \<in> set (trace s))"

text \<open>The call that built a wrapper.\<close>

fun call_of :: "jobop \<Rightarrow> call option" where
  "call_of (Plain f) = None"
| "call_of (JoinWrapper t f) = Some (Join f)"
| "call_of (JoinTimeoutWrapper t started startTimeout f) = Some (JoinTimeout startTimeout f)"

text \<open>
  The operations \<open>Run\<close> holds or will receive: the one in its hands, then the buffer.
\<close>

definition in_flight :: "sys \<Rightarrow> jobop list" where
  "in_flight s =
     (case run s of Call x \<Rightarrow> [x] | Body x \<Rightarrow> [x] | Signal x v \<Rightarrow> [x] | _ \<Rightarrow> [])
     @ buf (op (q s))"

text \<open>Those of them that are wrappers made by goroutine \<open>t\<close>.\<close>

definition owned :: "nat \<Rightarrow> sys \<Rightarrow> jobop list" where
  "owned t s = filter (\<lambda>x. owner x = Some t) (in_flight s)"

text \<open>
  A goroutine has at most one wrapper in flight, and then it waits in \<open><-c\<close> inside the
  call that built the wrapper.
\<close>

definition waited_for :: "sys \<Rightarrow> bool" where
  "waited_for s \<longleftrightarrow>
     (\<forall>t. owned t s = [] \<or>
        (\<exists>x c rest. owned t s = [x] \<and> t < length (goroutines s)
           \<and> at (goroutines s ! t) = Awaiting \<and> call_of x = Some c
           \<and> todo (goroutines s ! t) = c # rest))"

text \<open>
  A \<open>Stop\<close> that is past its \<open>Message\<close>, or has returned, found the logger non-nil.
\<close>

definition stop_logged :: "sys \<Rightarrow> bool" where
  "stop_logged s \<longleftrightarrow>
     (\<forall>t < length (goroutines s). \<forall>rest k.
        todo (goroutines s ! t) = Stop # rest \<and> at (goroutines s ! t) = Line k \<and> 1 \<le> k
        \<longrightarrow> logger (q s))
     \<and> ((\<exists>u. Return u Stop None \<in> set (trace s)) \<longrightarrow> logger (q s))"

text \<open>
  Goroutine \<open>t\<close> is in a call of \<open>Stop\<close> on a closed channel, not past \<open>close(q.op)\<close>.
\<close>

definition stop_fails :: "nat \<Rightarrow> call list \<Rightarrow> sys \<Rightarrow> bool" where
  "stop_fails t rest s \<longleftrightarrow>
     closed (op (q s)) \<and> logger (q s) \<and> t < length (goroutines s)
     \<and> todo (goroutines s ! t) = Stop # rest
     \<and> at (goroutines s ! t)
         \<in> {Line 0, Line 1, Line 2, Panicked NilDereference, Panicked CloseOfClosedChannel}"







text \<open>The events of a trace that \<open>Run\<close> produces when it calls an operation.\<close>

definition work :: "event list \<Rightarrow> event list" where
  "work tr =
     filter (\<lambda>e. case e of Invoked x c \<Rightarrow> True | Begun i \<Rightarrow> True | Ended i \<Rightarrow> True
                 | Faulted i \<Rightarrow> True | _ \<Rightarrow> False) tr"

text \<open>
  What these events end with, given where \<open>Run\<close> stands: inside the caller's function,
  the call of the operation and the beginning of the function; at \<open>c <- true\<close>, also its
  end; at \<open>c <- false\<close>, which only a \<open>JoinTimeout\<close> wrapper has, the call alone.
\<close>

fun logged :: "run_state \<Rightarrow> event list \<Rightarrow> bool" where
  "logged (Body x) w \<longleftrightarrow>
     (\<exists>i b c before. wrapped x = Func i b \<and> w = before @ [Invoked x c, Begun i])"
| "logged (Signal x v) w \<longleftrightarrow>
     (if v then (\<exists>i c before. wrapped x = Func i Returns
                   \<and> w = before @ [Invoked x c, Begun i, Ended i])
      else (\<exists>t started startTimeout f c before.
              x = JoinTimeoutWrapper t started startTimeout f \<and> w = before @ [Invoked x c]))"
| "logged r w \<longleftrightarrow> True"

definition worker_log :: "sys \<Rightarrow> bool" where
  "worker_log s \<longleftrightarrow> logged (run s) (work (trace s))"

text \<open>
  \<open>Run\<close> holds an operation; it has then deferred at least one \<open>LogPanic\<close>.
\<close>

fun holding :: "run_state \<Rightarrow> bool" where
  "holding (Call x) = True"
| "holding (Body x) = True"
| "holding (Signal x v) = True"
| "holding r = False"

definition guarded :: "sys \<Rightarrow> bool" where
  "guarded s \<longleftrightarrow> (holding (run s) \<longrightarrow> 0 < handlers s)"


text \<open>
  The queue is stopped for good: \<open>q.ctx\<close> is nil and no goroutine has a call of
  \<open>Initialize\<close> left to make.
\<close>

definition stopped :: "sys \<Rightarrow> bool" where
  "stopped s \<longleftrightarrow>
     ctx (q s) = None
     \<and> (\<forall>t < length (goroutines s). \<forall>c \<in> set (todo (goroutines s ! t)). \<forall>p. c \<noteq> Initialize p)"

text \<open>
  How many operations \<open>Run\<close> can still call then: one if it is inside \<open>select\<close> or
  holds an operation it has not called yet, none otherwise.
\<close>

fun budget :: "run_state \<Rightarrow> nat" where
  "budget (Select k) = 1"
| "budget (Call x) = 1"
| "budget r = 0"

subsection \<open>Facts about the string helpers\<close>

lemma Index_None_iff: "Index s c = None \<longleftrightarrow> c \<notin> set s"
  by (induction s) auto

lemma Contains_iff: "Contains s c \<longleftrightarrow> c \<in> set s"
  by (simp add: Contains_def Index_None_iff)

lemma Count_zero_iff: "Count s c = 0 \<longleftrightarrow> c \<notin> set s"
  by (induction s) (auto simp: Count_def)

lemma SplitN_one: "SplitN s c 1 = [s]"
  by (simp add: SplitN_def genSplit_def)

lemma Split_no_sep: "c \<notin> set s \<Longrightarrow> Split s c = [s]"
  using Count_zero_iff [of s c]
  by (simp add: Split_def genSplit_def)

lemma Count_le_length: "Count s c \<le> length s"
  by (simp add: Count_def)

lemma genSplit_loop_Index:
  "Index s c = Some m \<Longrightarrow> genSplit_loop (Suc k) s c = take m s # genSplit_loop k (drop (Suc m) s) c"
  by simp

lemma genSplit_loop_nonempty: "genSplit_loop k s c \<noteq> []"
  by (cases k) (auto split: option.splits)

lemma Index_Some_Count: "Index s c = Some m \<Longrightarrow> 0 < Count s c"
  using Count_zero_iff [of s c] Index_None_iff [of s c] by auto

lemma Split_with_sep:
  assumes "c \<in> set s"
  shows "\<exists>mode seg rest. Split s c = mode # seg # rest \<and> set mode \<subseteq> set s"
proof -
  from assms obtain m where m: "Index s c = Some m"
    using Index_None_iff [of s c] by auto
  then have "0 < Count s c" by (rule Index_Some_Count)
  then obtain k where k: "Count s c = Suc k" by (cases "Count s c") auto
  have "Split s c = genSplit_loop (Suc k) s c"
    using k Count_le_length [of s c] by (simp add: Split_def genSplit_def)
  also have "\<dots> = take m s # genSplit_loop k (drop (Suc m) s) c"
    using m by simp
  finally have eq: "Split s c = take m s # genSplit_loop k (drop (Suc m) s) c" .
  obtain seg rest where "genSplit_loop k (drop (Suc m) s) c = seg # rest"
    using genSplit_loop_nonempty [of k "drop (Suc m) s" c]
    by (cases "genSplit_loop k (drop (Suc m) s) c") auto
  with eq have "Split s c = take m s # seg # rest" by simp
  moreover have "set (take m s) \<subseteq> set s" by (rule set_take_subset)
  ultimately show ?thesis by blast
qed

lemma parse_pairs_Cons: "isl (parse_pairs key cs (seg # rest) opts)"
  by (simp add: SplitN_one)

subsection \<open>What the parser accepts\<close>

text \<open>
  C10. \<open>ParseConfstr\<close> returns an error for every configuration string that holds a
  \<open>;\<close>: each segment after the mode is split on \<open>=\<close> with limit 1, which yields one part
  and never the two parts required. It succeeds exactly on a string with neither \<open>;\<close> nor
  \<open>=\<close>, and then returns the whole string as the mode together with an empty option map.
\<close>

theorem ParseConfstr_semicolon_fails:
  assumes "lookup_config key globalConfig environ = Some configString"
  shows "(CHR '';'' \<in> set configString \<longrightarrow> isl (ParseConfstr key globalConfig environ))
       \<and> (ParseConfstr key globalConfig environ = Inr r \<longleftrightarrow>
            CHR '';'' \<notin> set configString \<and> CHR ''='' \<notin> set configString
            \<and> r = (configString, Map.empty))"
proof (cases "CHR '';'' \<in> set configString")
  case True
  then obtain mode seg rest where sp: "Split configString (CHR '';'') = mode # seg # rest"
    using Split_with_sep by blast
  have "isl (ParseConfstr key globalConfig environ)"
    using assms sp parse_pairs_Cons [of key configString seg rest Map.empty]
    by (auto simp: ParseConfstr_def split: sum.splits)
  with True show ?thesis by auto
next
  case False
  then have sp: "Split configString (CHR '';'') = [configString]"
    by (rule Split_no_sep)
  show ?thesis
    using assms sp False
    by (auto simp: ParseConfstr_def Contains_iff)
qed

theorem ParseConfstr_semicolon_fails_witness:
  "isl (ParseConfstr ''SECURITY''
          (Some [''SECURITY'' \<mapsto> ''test;key1=value;key2=other value;'']) Map.empty)
   \<and> ParseConfstr ''SECURITY'' (Some [''SECURITY'' \<mapsto> ''test'']) Map.empty
       = Inr (''test'', Map.empty)"
proof -
  have a: "lookup_config ''SECURITY''
             (Some [''SECURITY'' \<mapsto> ''test;key1=value;key2=other value;'']) Map.empty
           = Some ''test;key1=value;key2=other value;''"
    by (simp add: lookup_config_def)
  have b: "lookup_config ''SECURITY'' (Some [''SECURITY'' \<mapsto> ''test'']) Map.empty
           = Some ''test''"
    by (simp add: lookup_config_def)
  have "isl (ParseConfstr ''SECURITY''
          (Some [''SECURITY'' \<mapsto> ''test;key1=value;key2=other value;'']) Map.empty)"
    using ParseConfstr_semicolon_fails [OF a] by simp
  moreover have "ParseConfstr ''SECURITY'' (Some [''SECURITY'' \<mapsto> ''test'']) Map.empty
       = Inr (''test'', Map.empty)"
    using ParseConfstr_semicolon_fails [OF b, of "(''test'', Map.empty)"] by simp
  ultimately show ?thesis by simp
qed

section \<open>Properties of the job queue\<close>

subsection \<open>Leaving Run\<close>

lemma LogPanic_None: "LogPanic l k (None, s) = (None, s)"
  by (simp add: LogPanic_def)

lemma LogPanic_Some: "\<exists>w. LogPanic l k (Some r, s) = (None, s\<lparr>out := w\<rparr>)"
  by (auto simp: LogPanic_def put_def Let_def)

lemma LogPanic_funpow:
  "\<exists>w. ((LogPanic l k) ^^ n) (p, s) = ((if n = 0 then p else None), s\<lparr>out := w\<rparr>)"
proof (induction n)
  case 0
  show ?case by (rule exI [of _ "out s"]) simp
next
  case (Suc n)
  then obtain w where w: "((LogPanic l k) ^^ n) (p, s) = ((if n = 0 then p else None), s\<lparr>out := w\<rparr>)"
    by blast
  have step: "((LogPanic l k) ^^ Suc n) (p, s) = LogPanic l k ((if n = 0 then p else None), s\<lparr>out := w\<rparr>)"
    by (simp only: funpow.simps o_apply w)
  show ?case
  proof (cases "if n = 0 then p else None")
    case None
    then have "((LogPanic l k) ^^ Suc n) (p, s) = (None, s\<lparr>out := w\<rparr>)"
      using step by (simp only: LogPanic_None)
    then show ?thesis by (intro exI [of _ w]) simp
  next
    case (Some r)
    obtain w' where "LogPanic l k (Some r, s\<lparr>out := w\<rparr>) = (None, s\<lparr>out := w\<rparr>\<lparr>out := w'\<rparr>)"
      using LogPanic_Some by blast
    then have "((LogPanic l k) ^^ Suc n) (p, s) = (None, s\<lparr>out := w'\<rparr>)"
      using step Some by (simp del: funpow.simps)
    then show ?thesis by (intro exI [of _ w']) simp
  qed
qed

lemma Run_exit_shape:
  "\<exists>w. Run_exit p s =
     s\<lparr>out := w,
       run := (case p of None \<Rightarrow> RunReturned
               | Some f \<Rightarrow> if handlers s = 0 then RunPanicked f else RunReturned),
       handlers := 0\<rparr>"
proof -
  obtain w where w: "((LogPanic (logger (q s)) ''queue'') ^^ handlers s) (p, s)
      = ((if handlers s = 0 then p else None), s\<lparr>out := w\<rparr>)"
    using LogPanic_funpow by blast
  show ?thesis
    unfolding Run_exit_def w by (cases p) (auto simp: put_def Let_def)
qed

lemma Run_exit_simps [simp]:
  "trace (Run_exit p s) = trace s"
  "q (Run_exit p s) = q s"
  "ctxs (Run_exit p s) = ctxs s"
  "clock (Run_exit p s) = clock s"
  "goroutines (Run_exit p s) = goroutines s"
  "handlers (Run_exit p s) = 0"
  "run (Run_exit p s) = (case p of None \<Rightarrow> RunReturned
               | Some f \<Rightarrow> if handlers s = 0 then RunPanicked f else RunReturned)"
  using Run_exit_shape [of p s] by auto


subsection \<open>What each primitive changes\<close>

lemma emit_simps [simp]:
  "trace (emit e s) = trace s @ [e]" "q (emit e s) = q s" "ctxs (emit e s) = ctxs s"
  "clock (emit e s) = clock s" "run (emit e s) = run s" "handlers (emit e s) = handlers s"
  "goroutines (emit e s) = goroutines s"
  by (simp_all add: emit_def)

lemma put_simps [simp]:
  "trace (put x s) = trace s" "q (put x s) = q s" "ctxs (put x s) = ctxs s"
  "clock (put x s) = clock s" "run (put x s) = run s" "handlers (put x s) = handlers s"
  "goroutines (put x s) = goroutines s"
  by (simp_all add: put_def)

lemma set_op_simps [simp]:
  "trace (set_op c s) = trace s" "op (q (set_op c s)) = c" "ctx (q (set_op c s)) = ctx (q s)"
  "cancel (q (set_op c s)) = cancel (q s)" "logger (q (set_op c s)) = logger (q s)"
  "name (q (set_op c s)) = name (q s)" "ctxs (set_op c s) = ctxs s"
  "clock (set_op c s) = clock s" "run (set_op c s) = run s"
  "handlers (set_op c s) = handlers s" "goroutines (set_op c s) = goroutines s"
  by (simp_all add: set_op_def)

lemma move_simps [simp]:
  "trace (move t p s) = trace s" "q (move t p s) = q s" "ctxs (move t p s) = ctxs s"
  "clock (move t p s) = clock s" "run (move t p s) = run s"
  "handlers (move t p s) = handlers s"
  "goroutines (move t p s) = (goroutines s)[t := (goroutines s ! t)\<lparr>at := p\<rparr>]"
  by (simp_all add: move_def)

lemma finish_simps [simp]:
  "trace (finish t r s) = trace s @ [Return t (hd (todo (goroutines s ! t))) r]"
  "q (finish t r s) = q s" "ctxs (finish t r s) = ctxs s"
  "clock (finish t r s) = clock s" "run (finish t r s) = run s"
  "handlers (finish t r s) = handlers s"
  "goroutines (finish t r s)
     = (goroutines s)[t := \<lparr>todo = tl (todo (goroutines s ! t)), at = Line 0\<rparr>]"
  by (simp_all add: finish_def Let_def)

lemma received_simps [simp]:
  "trace (received x s) = trace s" "q (received x s) = q s" "ctxs (received x s) = ctxs s"
  "clock (received x s) = clock s" "goroutines (received x s) = goroutines s"
  "run (received x s) = (if x = Plain Nil then RunReturned else Call x)"
  "handlers (received x s) = (if x = Plain Nil then 0 else Suc (handlers s))"
  by (simp_all add: received_def)

lemma accepted_simps [simp]:
  "accepted [] = []"
  "accepted (e # es) = (case e of Accepted x \<Rightarrow> [x] | _ \<Rightarrow> []) @ accepted es"
  "accepted (xs @ ys) = accepted xs @ accepted ys"
  by (simp_all add: accepted_def)

lemma invoked_simps [simp]:
  "invoked [] = []"
  "invoked (e # es) = (case e of Invoked x c \<Rightarrow> [x] | _ \<Rightarrow> []) @ invoked es"
  "invoked (xs @ ys) = invoked xs @ invoked ys"
  by (simp_all add: invoked_def)

lemmas prims = emit_def put_def set_op_def move_def finish_def log_Message_def WithCancel_def
  call_cancel_def close_op_def

lemma stmt_keeps_set:
  assumes "f \<in> set (body_of c)" "f s = Inr s'"
  shows "trace s' = trace s \<and> run s' = run s \<and> buf (op (q s')) = buf (op (q s))
     \<and> cap (op (q s')) = cap (op (q s)) \<and> goroutines s' = goroutines s
     \<and> handlers s' = handlers s \<and> clock s' = clock s
     \<and> logger (q s') = logger (q s) \<and> name (q s') = name (q s)"
proof (cases c)
  case (Initialize p)
  with assms show ?thesis
    by (auto simp: body_of_def Initialize_body_def prims split: if_splits)
next
  case Stop
  with assms show ?thesis
    by (auto simp: body_of_def Stop_body_def prims split: if_splits option.splits)
qed (use assms in \<open>auto simp: body_of_def\<close>)

lemma stmt_keeps:
  assumes "k < length (body_of c)" "(body_of c ! k) s = Inr s'"
  shows "trace s' = trace s \<and> run s' = run s \<and> buf (op (q s')) = buf (op (q s))
     \<and> cap (op (q s')) = cap (op (q s)) \<and> goroutines s' = goroutines s
     \<and> handlers s' = handlers s \<and> clock s' = clock s
     \<and> logger (q s') = logger (q s) \<and> name (q s') = name (q s)"
  using stmt_keeps_set [OF nth_mem [OF assms(1)] assms(2)] .



lemma send_cases [consumes 1, case_names Buffered Handoff]:
  assumes "send x s = Proceeds s1"
  obtains
    (Buffered) "\<not> closed (op (q s))" "length (buf (op (q s))) < cap (op (q s))"
      "s1 = emit (Accepted x) (set_op ((op (q s))\<lparr>buf := buf (op (q s)) @ [x]\<rparr>) s)"
  | (Handoff) k where "\<not> closed (op (q s))" "cap (op (q s)) = 0" "run s = Select k"
      "s1 = received x (emit (Accepted x) s)"
  using assms by (auto simp: send_def split: if_splits run_state.splits)

lemma goroutine_step_cases [consumes 1, case_names Enqueue Join Started Submit Panic Stmt Last]:
  assumes "goroutine_step t s = Some s'"
  obtains
    (Enqueue) f rest k s1 where "t < length (goroutines s)"
      "todo (goroutines s ! t) = Enqueue f # rest" "at (goroutines s ! t) = Line k"
      "send (Plain f) s = Proceeds s1" "s' = finish t None s1"
  | (Join) f rest k s1 where "t < length (goroutines s)"
      "todo (goroutines s ! t) = Join f # rest" "at (goroutines s ! t) = Line k"
      "send (JoinWrapper t f) s = Proceeds s1" "s' = move t Awaiting s1"
  | (Started) startTimeout f rest k where "t < length (goroutines s)"
      "todo (goroutines s ! t) = JoinTimeout startTimeout f # rest"
      "at (goroutines s ! t) = Line k" "s' = move t (Submitting (clock s)) s"
  | (Submit) startTimeout f rest started s1 where "t < length (goroutines s)"
      "todo (goroutines s ! t) = JoinTimeout startTimeout f # rest"
      "at (goroutines s ! t) = Submitting started"
      "send (JoinTimeoutWrapper t started startTimeout f) s = Proceeds s1"
      "s' = move t Awaiting s1"
  | (Panic) c rest e where "t < length (goroutines s)"
      "todo (goroutines s ! t) = c # rest"
      "at (goroutines s ! t) \<noteq> Awaiting" "\<forall>e'. at (goroutines s ! t) \<noteq> Panicked e'"
      "s' = move t (Panicked e) s"
      "(\<exists>x. send x s = PanicsWith e \<and> (\<forall>p. c \<noteq> Initialize p) \<and> c \<noteq> Stop)
       \<or> (\<exists>k. at (goroutines s ! t) = Line k \<and> k < length (body_of c)
              \<and> (body_of c ! k) s = Inl e)"
  | (Stmt) c rest k s1 where "t < length (goroutines s)"
      "todo (goroutines s ! t) = c # rest" "at (goroutines s ! t) = Line k"
      "k < length (body_of c)" "(body_of c ! k) s = Inr s1" "Suc k \<noteq> length (body_of c)"
      "s' = move t (Line (Suc k)) s1"
  | (Last) c rest k s1 where "t < length (goroutines s)"
      "todo (goroutines s ! t) = c # rest" "at (goroutines s ! t) = Line k"
      "k < length (body_of c)" "(body_of c ! k) s = Inr s1" "Suc k = length (body_of c)"
      "s' = finish t None s1"
proof -
  from assms have lt: "t < length (goroutines s)"
    by (simp add: goroutine_step_def split: if_splits)
  from assms lt obtain c rest where todo: "todo (goroutines s ! t) = c # rest"
    by (cases "todo (goroutines s ! t)") (auto simp: goroutine_step_def)
  show thesis
  proof (cases "at (goroutines s ! t)")
    case (Line k)
    show ?thesis
    proof (cases c)
      case (Enqueue f)
      with assms lt todo Line have "Enqueue_step t f s = Some s'"
        by (simp add: goroutine_step_def)
      then show ?thesis
        using lt todo Line Enqueue that(1) [of f rest k] that(5) [of c rest]
        by (auto simp: Enqueue_step_def split: attempt.splits)
    next
      case (Join f)
      with assms lt todo Line have "submit t (JoinWrapper t f) s = Some s'"
        by (simp add: goroutine_step_def)
      then show ?thesis
        using lt todo Line Join that(2) [of f rest k] that(5) [of c rest]
        by (auto simp: submit_def split: attempt.splits)
    next
      case (JoinTimeout startTimeout f)
      with assms lt todo Line show ?thesis
        using that(3) [of startTimeout f rest k] by (simp add: goroutine_step_def)
    next
      case (Initialize p)
      with assms lt todo Line have "straight t (body_of c) k s = Some s'"
        by (simp add: goroutine_step_def)
      then show ?thesis
        using lt todo Line that(5) [of c rest] that(6) [of c rest k] that(7) [of c rest k]
        by (auto simp: straight_def split: if_splits sum.splits)
    next
      case Stop
      with assms lt todo Line have "straight t (body_of c) k s = Some s'"
        by (simp add: goroutine_step_def)
      then show ?thesis
        using lt todo Line that(5) [of c rest] that(6) [of c rest k] that(7) [of c rest k]
        by (auto simp: straight_def split: if_splits sum.splits)
    qed
  next
    case (Submitting started)
    then obtain startTimeout f where c: "c = JoinTimeout startTimeout f"
      using assms lt todo by (cases c) (auto simp: goroutine_step_def)
    with assms lt todo Submitting
    have "submit t (JoinTimeoutWrapper t started startTimeout f) s = Some s'"
      by (simp add: goroutine_step_def)
    then show ?thesis
      using lt todo Submitting c that(4) [of startTimeout f rest started] that(5) [of c rest]
      by (auto simp: submit_def split: attempt.splits)
  next
    case Awaiting
    with assms lt todo show ?thesis by (simp add: goroutine_step_def)
  next
    case (Panicked e)
    with assms lt todo show ?thesis by (simp add: goroutine_step_def)
  qed
qed


lemma Run_step_cases
  [consumes 1, case_names Start StartPanic Enter EnterPanic Stale Begin CallNil End Fault Stuck
     Deliver]:
  assumes "Run_step s = Some s'"
  obtains
    (Start) "run s = NotStarted" "logger (q s)"
      "s' = (put (Message LOG_DEBUG ''queue'' (name (q s) @ '' Queue::Run'') None) s)\<lparr>run := Loop\<rparr>"
  | (StartPanic) "run s = NotStarted" "\<not> logger (q s)" "s' = s\<lparr>run := RunPanicked NilDereference\<rparr>"
  | (Enter) k where "run s = Loop" "ctx (q s) = Some k" "s' = s\<lparr>run := Select k\<rparr>"
  | (EnterPanic) "run s = Loop" "ctx (q s) = None" "s' = Run_exit (Some NilDereference) s"
  | (Stale) t started startTimeout f where
      "run s = Call (JoinTimeoutWrapper t started startTimeout f)"
      "startTimeout \<le> clock s - started"
      "s' = (emit (Invoked (JoinTimeoutWrapper t started startTimeout f) (ctx (q s))) s)
              \<lparr>run := Signal (JoinTimeoutWrapper t started startTimeout f) False\<rparr>"
  | (Begin) x i b where "run s = Call x" "wrapped x = Func i b"
      "\<forall>t started startTimeout f. x = JoinTimeoutWrapper t started startTimeout f
          \<longrightarrow> clock s - started < startTimeout"
      "s' = (emit (Begun i) (emit (Invoked x (ctx (q s))) s))\<lparr>run := Body x\<rparr>"
  | (CallNil) x where "run s = Call x" "wrapped x = Nil"
      "s' = Run_exit (Some NilDereference) (emit (Invoked x (ctx (q s))) s)"
  | (End) x i where "run s = Body x" "wrapped x = Func i Returns"
      "s' = (emit (Ended i) s)\<lparr>run := (if owner x = None then Loop else Signal x True)\<rparr>"
  | (Fault) x i where "run s = Body x" "wrapped x = Func i Panics"
      "s' = Run_exit (Some (OperationFault i)) (emit (Faulted i) s)"
  | (Stuck) x where "run s = Body x" "wrapped x = Nil" "s' = s"
  | (Deliver) x v t where "run s = Signal x v" "owner x = Some t" "t < length (goroutines s)"
      "at (goroutines s ! t) = Awaiting" "todo (goroutines s ! t) \<noteq> []"
      "s' = (finish t (Some v) s)\<lparr>run := Loop\<rparr>"
proof (cases "run s")
  case NotStarted
  with assms show ?thesis using that(1) that(2)
    by (auto simp: Run_step_def log_Message_def split: if_splits)
next
  case Loop
  with assms show ?thesis using that(3) that(4)
    by (auto simp: Run_step_def split: option.splits)
next
  case (Select k)
  with assms show ?thesis by (simp add: Run_step_def)
next
  case (Call x)
  with assms have s': "s' = invoke x s" by (simp add: Run_step_def)
  show ?thesis
  proof (cases x)
    case (Plain f)
    with s' Call show ?thesis using that(6) [of x] that(7) [of x]
      by (cases f) (auto simp: invoke_def enter_def Let_def)
  next
    case (JoinWrapper t f)
    with s' Call show ?thesis using that(6) [of x] that(7) [of x]
      by (cases f) (auto simp: invoke_def enter_def Let_def)
  next
    case (JoinTimeoutWrapper t started startTimeout f)
    show ?thesis
    proof (cases "startTimeout \<le> clock s - started")
      case True
      with s' Call JoinTimeoutWrapper show ?thesis
        using that(5) [of t started startTimeout f] by (simp add: invoke_def Let_def)
    next
      case False
      with s' Call JoinTimeoutWrapper show ?thesis using that(6) [of x] that(7) [of x]
        by (cases f) (auto simp: invoke_def enter_def Let_def)
    qed
  qed
next
  case (Body x)
  with assms have s': "s' = complete x s" by (simp add: Run_step_def)
  show ?thesis
  proof (cases "wrapped x")
    case Nil
    with s' Body show ?thesis using that(10) [of x] by (simp add: complete_def)
  next
    case (Func i b)
    with s' Body show ?thesis using that(8) [of x i] that(9) [of x i]
      by (cases b) (auto simp: complete_def)
  qed
next
  case (Signal x v)
  with assms show ?thesis using that(11) [of x v]
    by (auto simp: Run_step_def deliver_def split: option.splits if_splits)
next
  case RunReturned
  with assms show ?thesis by (simp add: Run_step_def)
next
  case (RunPanicked e)
  with assms show ?thesis by (simp add: Run_step_def)
qed

lemma Run_receive_cases [consumes 1, case_names Take Closed]:
  assumes "Run_receive s = Some s'"
  obtains
    (Take) k x rest where "run s = Select k" "buf (op (q s)) = x # rest"
      "s' = received x (set_op ((op (q s))\<lparr>buf := rest\<rparr>) s)"
  | (Closed) k where "run s = Select k" "buf (op (q s)) = []" "closed (op (q s))"
      "s' = received (Plain Nil) s"
  using assms
  by (auto simp: Run_receive_def split: run_state.splits list.splits if_splits)

lemma Run_done_cases [consumes 1, case_names Done]:
  assumes "Run_done s = Some s'"
  obtains k where "run s = Select k" "k < length (ctxs s)" "ctxs s ! k" "s' = Run_exit None s"
  using assms
  by (auto simp: Run_done_def split: run_state.splits if_splits)


subsection \<open>Schedules\<close>

lemma step_cases [consumes 1, case_names Go Worker Receive CtxDone Tick ParentCancel]:
  assumes "step a s = Some s'"
  obtains
    (Go) t where "a = Go t" "goroutine_step t s = Some s'"
  | (Worker) "a = Worker" "Run_step s = Some s'"
  | (Receive) "a = Receive" "Run_receive s = Some s'"
  | (CtxDone) "a = CtxDone" "Run_done s = Some s'"
  | (Tick) d where "a = Tick d" "s' = s\<lparr>clock := clock s + int d\<rparr>"
  | (ParentCancel) k where "a = ParentCancel k" "k < length (ctxs s)"
      "s' = s\<lparr>ctxs := (ctxs s)[k := True]\<rparr>"
  using assms by (cases a) (auto simp: step_def split: if_splits)


lemma steps_invariant:
  assumes "steps sched s0 = Some s" "P s0"
    and "\<And>a u u'. P u \<Longrightarrow> step a u = Some u' \<Longrightarrow> P u'"
  shows "P s"
  using assms(1,2)
proof (induction sched arbitrary: s0)
  case Nil
  then show ?case by simp
next
  case (Cons a sched)
  then show ?case using assms(3) by (auto split: option.splits)
qed

subsection \<open>Operations run in the order they were accepted\<close>

lemma in_order_send: "in_order s \<Longrightarrow> send x s = Proceeds s1 \<Longrightarrow> in_order s1"
  by (erule send_cases) (auto simp: in_order_def)

lemma in_order_stmt:
  "in_order s \<Longrightarrow> k < length (body_of c) \<Longrightarrow> (body_of c ! k) s = Inr s1 \<Longrightarrow> in_order s1"
  by (drule (1) stmt_keeps) (simp add: in_order_def)

lemma in_order_move [simp]: "in_order (move t p s) = in_order s"
  by (simp add: in_order_def)

lemma in_order_finish [simp]: "in_order (finish t r s) = in_order s"
  by (simp add: in_order_def)

lemma in_order_Go:
  assumes "in_order s" "goroutine_step t s = Some s'"
  shows "in_order s'"
  using assms(2)
proof (cases rule: goroutine_step_cases)
  case (Stmt c rest k s1)
  then show ?thesis using assms(1) in_order_stmt [of s k c s1] by simp
next
  case (Last c rest k s1)
  then show ?thesis using assms(1) in_order_stmt [of s k c s1] by simp
qed (use assms(1) in \<open>auto dest: in_order_send\<close>)

lemma in_order_Worker: "in_order s \<Longrightarrow> Run_step s = Some s' \<Longrightarrow> in_order s'"
  by (erule Run_step_cases) (auto simp: in_order_def)

lemma in_order_Receive: "in_order s \<Longrightarrow> Run_receive s = Some s' \<Longrightarrow> in_order s'"
  by (erule Run_receive_cases) (auto simp: in_order_def)

lemma in_order_Done: "in_order s \<Longrightarrow> Run_done s = Some s' \<Longrightarrow> in_order s'"
  by (erule Run_done_cases) (auto simp: in_order_def)

lemma in_order_step: "in_order s \<Longrightarrow> step a s = Some s' \<Longrightarrow> in_order s'"
  by (erule step_cases)
     (auto dest: in_order_Go in_order_Worker in_order_Receive in_order_Done,
      auto simp: in_order_def)

lemma NewJobQueue_fresh:
  assumes "NewJobQueue nm lg backlog programs = Inr s0"
  shows "trace s0 = []" "run s0 = NotStarted" "handlers s0 = 0" "buf (op (q s0)) = []"
    "\<not> closed (op (q s0))" "ctx (q s0) = None" "cancel (q s0) = None"
    "goroutines s0 = map (\<lambda>cs. \<lparr>todo = cs, at = Line 0\<rparr>) programs"
    "cap (op (q s0)) = nat backlog" "logger (q s0) = lg"
  using assms by (auto simp: NewJobQueue_def split: if_splits)

lemma in_order_fresh: "NewJobQueue nm lg backlog programs = Inr s0 \<Longrightarrow> in_order s0"
  by (simp add: in_order_def NewJobQueue_fresh)

subsection \<open>One function at a time\<close>

lemma exclusive_append:
  "exclusive cur (xs @ ys) \<longleftrightarrow> exclusive cur xs \<and> exclusive (foldl after cur xs) ys"
  by (induction xs arbitrary: cur) auto



lemma one_at_a_time_move [simp]: "one_at_a_time (move t p s) = one_at_a_time s"
  by (simp add: one_at_a_time_def)

lemma one_at_a_time_finish [simp]: "one_at_a_time (finish t r s) = one_at_a_time s"
  by (auto simp: one_at_a_time_def exclusive_append after_def allowed_def)







subsection \<open>A fault in an operation ends the loop\<close>

text \<open>
  C1. The queue holds a faulting operation A (function 1) and then an operation B
  (function 2). \<open>Run\<close> calls A; the panic is recovered by the deferred \<open>LogPanic\<close> and
  logged, but the handler belongs to the frame of \<open>Run\<close>, so \<open>Run\<close> returns: B stays in
  the channel, is never called, and no further step of \<open>Run\<close> is possible.
\<close>

theorem Run_returns_after_fault:
  "(case steps [Go 0, Go 0, Go 0, Go 0, Worker, Worker, Receive, Worker, Worker]
           (projr (NewJobQueue ''db'' True 2
              [[Initialize LiveContext, Enqueue (Func 1 Panics), Enqueue (Func 2 Returns)]])) of
      None \<Rightarrow> False
    | Some s \<Rightarrow>
        run s = RunReturned
        \<and> buf (op (q s)) = [Plain (Func 2 Returns)]
        \<and> invoked (trace s) = [Plain (Func 1 Panics)]
        \<and> Begun 2 \<notin> set (trace s)
        \<and> Message LOG_CRIT ''queue'' ''panic (err, stacktrace)'' (Some (OperationFault 1))
            \<in> set (out s)
        \<and> step Worker s = None \<and> step Receive s = None \<and> step CtxDone s = None)"
  by code_simp

subsection \<open>Enqueue after Stop\<close>

lemma stmt_closed:
  assumes "k < length (body_of c)" "(body_of c ! k) s = Inr s1"
  shows "closed (op (q s)) \<Longrightarrow> closed (op (q s1))"
    and "c = Stop \<Longrightarrow> k = 2 \<Longrightarrow> closed (op (q s1))"
    and "c = Stop \<Longrightarrow> Suc k = length (body_of c) \<Longrightarrow> k = 4"
  using assms
  by (auto simp: body_of_def Initialize_body_def Stop_body_def prims nth_Cons
      split: call.splits if_splits option.splits nat.splits)

lemma send_closed: "send x s = Proceeds s1 \<Longrightarrow> closed (op (q s1)) = closed (op (q s))"
  by (erule send_cases) auto

lemma send_goroutines: "send x s = Proceeds s1 \<Longrightarrow> goroutines s1 = goroutines s"
  by (erule send_cases) auto

lemma send_trace: "send x s = Proceeds s1 \<Longrightarrow> trace s1 = trace s @ [Accepted x]"
  by (erule send_cases) auto

lemma stop_closes_Go:
  assumes "stop_closes s" "goroutine_step t s = Some s'"
  shows "stop_closes s'"
  using assms(2)
proof (cases rule: goroutine_step_cases)
  case (Enqueue f rest k s1)
  then show ?thesis
    using assms(1) send_closed [of "Plain f" s s1] send_goroutines [of "Plain f" s s1]
      send_trace [of "Plain f" s s1]
    by (auto simp: stop_closes_def nth_list_update)
next
  case (Join f rest k s1)
  then show ?thesis
    using assms(1) send_closed [of _ s s1] send_goroutines [of _ s s1] send_trace [of _ s s1]
    by (auto simp: stop_closes_def nth_list_update)
next
  case (Started startTimeout f rest k)
  then show ?thesis using assms(1) by (auto simp: stop_closes_def nth_list_update)
next
  case (Submit startTimeout f rest started s1)
  then show ?thesis
    using assms(1) send_closed [of _ s s1] send_goroutines [of _ s s1] send_trace [of _ s s1]
    by (auto simp: stop_closes_def nth_list_update)
next
  case (Panic c rest e)
  then show ?thesis using assms(1) by (auto simp: stop_closes_def nth_list_update)
next
  case (Stmt c rest k s1)
  have "k < 2 \<or> k = 2 \<or> 3 \<le> k" by arith
  with Stmt show ?thesis
    using assms(1) stmt_closed(1,2) [of k c s s1] stmt_keeps [of k c s s1]
    by (auto simp: stop_closes_def nth_list_update)
next
  case (Last c rest k s1)
  then show ?thesis
    using assms(1) stmt_closed [of k c s s1] stmt_keeps [of k c s s1]
    by (auto simp: stop_closes_def nth_list_update)
qed

lemma stop_closes_Worker: "stop_closes s \<Longrightarrow> Run_step s = Some s' \<Longrightarrow> stop_closes s'"
  by (erule Run_step_cases) (auto simp: stop_closes_def nth_list_update)

lemma stop_closes_Receive: "stop_closes s \<Longrightarrow> Run_receive s = Some s' \<Longrightarrow> stop_closes s'"
  by (erule Run_receive_cases) (auto simp: stop_closes_def)

lemma stop_closes_Done: "stop_closes s \<Longrightarrow> Run_done s = Some s' \<Longrightarrow> stop_closes s'"
  by (erule Run_done_cases) (auto simp: stop_closes_def)

lemma stop_closes_step: "stop_closes s \<Longrightarrow> step a s = Some s' \<Longrightarrow> stop_closes s'"
  by (erule step_cases)
     (auto dest: stop_closes_Go stop_closes_Worker stop_closes_Receive stop_closes_Done,
      auto simp: stop_closes_def)

lemma stop_closes_fresh: "NewJobQueue nm lg backlog programs = Inr s0 \<Longrightarrow> stop_closes s0"
  by (auto simp: stop_closes_def NewJobQueue_fresh)

text \<open>
  C3 (amended). Once a call of \<open>Stop\<close> has returned, every later \<open>Enqueue\<close> panics its
  caller with a send on a closed channel; it does not block, and nothing is enqueued.
\<close>

theorem Enqueue_after_Stop_panics:
  assumes "NewJobQueue nm lg backlog programs = Inr s0" and "steps sched s0 = Some s"
    and "Return u Stop None \<in> set (trace s)"
    and "t < length (goroutines s)" and "todo (goroutines s ! t) = Enqueue f # rest"
    and "at (goroutines s ! t) = Line k"
  shows "step (Go t) s = Some (move t (Panicked SendOnClosedChannel) s)"
proof -
  have "stop_closes s"
    using assms(2) stop_closes_fresh [OF assms(1)] stop_closes_step
    by (rule steps_invariant)
  with assms(3) have "closed (op (q s))" by (auto simp: stop_closes_def)
  then show ?thesis
    using assms(4-6) by (simp add: step_def goroutine_step_def Enqueue_step_def send_def)
qed

theorem Enqueue_after_Stop_panics_witness:
  "\<exists>s. steps [Go 0, Go 0, Go 0, Go 0, Go 0, Go 0, Go 0]
          (projr (NewJobQueue ''db'' True 1
             [[Initialize LiveContext, Stop], [Enqueue (Func 1 Returns)]])) = Some s
       \<and> Return 0 Stop None \<in> set (trace s)
       \<and> step (Go 1) s = Some (move 1 (Panicked SendOnClosedChannel) s)"
proof -
  let ?s0 = "projr (NewJobQueue ''db'' True 1
             [[Initialize LiveContext, Stop], [Enqueue (Func 1 Returns)]])"
  let ?sched = "[Go 0, Go 0, Go 0, Go 0, Go 0, Go 0, Go 0]"
  have new: "NewJobQueue ''db'' True 1
             [[Initialize LiveContext, Stop], [Enqueue (Func 1 Returns)]] = Inr ?s0"
    by (simp add: NewJobQueue_def)
  have "case steps ?sched ?s0 of None \<Rightarrow> False
        | Some s \<Rightarrow> Return 0 Stop None \<in> set (trace s) \<and> 1 < length (goroutines s)
            \<and> todo (goroutines s ! 1) = [Enqueue (Func 1 Returns)]
            \<and> at (goroutines s ! 1) = Line 0"
    by code_simp
  then obtain s where s: "steps ?sched ?s0 = Some s" "Return 0 Stop None \<in> set (trace s)"
    "1 < length (goroutines s)" "todo (goroutines s ! 1) = [Enqueue (Func 1 Returns)]"
    "at (goroutines s ! 1) = Line 0"
    by (auto split: option.splits)
  from Enqueue_after_Stop_panics [OF new s] s(1,2) show ?thesis by blast
qed

text \<open>
  The claim as stated fails: after \<open>Initialize\<close> and \<open>Stop\<close>, the goroutine that calls
  \<open>Enqueue\<close> is stopped by a panic; its call has not returned.
\<close>

theorem Enqueue_after_Stop_counterexample:
  "(case steps [Go 0, Go 0, Go 0, Go 0, Go 0, Go 0, Go 0, Go 1]
           (projr (NewJobQueue ''db'' True 1
              [[Initialize LiveContext, Stop], [Enqueue (Func 1 Returns)]])) of
      None \<Rightarrow> False
    | Some s \<Rightarrow>
        Return 0 Stop None \<in> set (trace s)
        \<and> at (goroutines s ! 1) = Panicked SendOnClosedChannel
        \<and> todo (goroutines s ! 1) = [Enqueue (Func 1 Returns)]
        \<and> buf (op (q s)) = [])"
  by code_simp

subsection \<open>Before Initialize\<close>

lemma stmt_uninitialized:
  assumes "k < length (body_of c)" "(body_of c ! k) s = Inr s1" "cancel (q s) = None"
    "ctx (q s) = None" "c = Stop \<longrightarrow> k \<le> 1"
  shows "c = Stop \<Longrightarrow> k = 0"
    and "Suc k \<noteq> length (body_of c) \<Longrightarrow>
          ctx (q s1) = None \<and> cancel (q s1) = None \<and> closed (op (q s1)) = closed (op (q s))"
    and "Suc k = length (body_of c) \<Longrightarrow> \<exists>p. c = Initialize p"
  using assms
  by (auto simp: body_of_def Initialize_body_def Stop_body_def prims nth_Cons
      split: call.splits if_splits option.splits nat.splits)

lemma stmt_Inl:
  assumes "k < length (body_of c)"
  shows "c = Stop \<or> (\<exists>p. c = Initialize p)"
  using assms by (cases c) (auto simp: body_of_def)

lemma send_uninitialized:
  assumes "send x s = Proceeds s1" "uninitialized s"
  shows "ctx (q s1) = None \<and> cancel (q s1) = None \<and> \<not> closed (op (q s1)) \<and> handlers s1 = 0
     \<and> run s1 = run s"
  using assms by (cases rule: send_cases) (auto simp: uninitialized_def)

lemma uninitialized_Go:
  assumes "uninitialized s" "goroutine_step t s = Some s'"
  shows "uninitialized s' \<or> initialize_returned s'"
  using assms(2)
proof (cases rule: goroutine_step_cases)
  case (Enqueue f rest k s1)
  then show ?thesis
    using assms(1) send_uninitialized [of _ s s1] send_goroutines [of _ s s1]
      send_trace [of _ s s1]
    by (auto simp: uninitialized_def nth_list_update)
next
  case (Join f rest k s1)
  then show ?thesis
    using assms(1) send_uninitialized [of _ s s1] send_goroutines [of _ s s1]
      send_trace [of _ s s1]
    by (auto simp: uninitialized_def nth_list_update)
next
  case (Started startTimeout f rest k)
  then show ?thesis using assms(1) by (auto simp: uninitialized_def nth_list_update)
next
  case (Submit startTimeout f rest started s1)
  then show ?thesis
    using assms(1) send_uninitialized [of _ s s1] send_goroutines [of _ s s1]
      send_trace [of _ s s1]
    by (auto simp: uninitialized_def nth_list_update)
next
  case (Panic c rest e)
  then show ?thesis
    using assms(1) stmt_Inl [of _ c]
    by (auto simp: uninitialized_def nth_list_update send_def split: if_splits)
next
  case (Stmt c rest k s1)
  then show ?thesis
    using assms(1) stmt_uninitialized(1,2) [of k c s s1] stmt_keeps [of k c s s1]
    by (auto simp: uninitialized_def nth_list_update)
next
  case (Last c rest k s1)
  then show ?thesis
    using assms(1) stmt_uninitialized(3) [of k c s s1] stmt_keeps [of k c s s1]
    by (auto simp: uninitialized_def initialize_returned_def)
qed

lemma uninitialized_Worker: "uninitialized s \<Longrightarrow> Run_step s = Some s' \<Longrightarrow> uninitialized s'"
  by (erule Run_step_cases) (auto simp: uninitialized_def)

lemma uninitialized_Receive: "uninitialized s \<Longrightarrow> Run_receive s = Some s' \<Longrightarrow> uninitialized s'"
  by (erule Run_receive_cases) (auto simp: uninitialized_def)

lemma uninitialized_Done: "uninitialized s \<Longrightarrow> Run_done s = Some s' \<Longrightarrow> uninitialized s'"
  by (erule Run_done_cases) (auto simp: uninitialized_def)

lemma uninitialized_step:
  "uninitialized s \<Longrightarrow> step a s = Some s' \<Longrightarrow> uninitialized s' \<or> initialize_returned s'"
  by (erule step_cases)
     (auto dest: uninitialized_Go uninitialized_Worker uninitialized_Receive uninitialized_Done,
      auto simp: uninitialized_def)

lemma goroutine_step_trace:
  assumes "goroutine_step t s = Some s'"
  shows "\<exists>evs. trace s' = trace s @ evs"
  using assms
proof (cases rule: goroutine_step_cases)
  case (Stmt c rest k s1)
  then show ?thesis using stmt_keeps [of k c s s1] by simp
next
  case (Last c rest k s1)
  then show ?thesis using stmt_keeps [of k c s s1] by simp
qed (auto dest: send_trace)

lemma step_trace:
  assumes "step a s = Some s'"
  shows "\<exists>evs. trace s' = trace s @ evs"
  using assms
proof (cases rule: step_cases)
  case (Go t)
  then show ?thesis by (simp add: goroutine_step_trace)
next
  case Worker
  then show ?thesis by (elim Run_step_cases) auto
next
  case Receive
  then show ?thesis by (elim Run_receive_cases) auto
next
  case CtxDone
  then show ?thesis by (elim Run_done_cases) auto
qed auto

lemma steps_trace: "steps sched s = Some s' \<Longrightarrow> \<exists>evs. trace s' = trace s @ evs"
proof (induction sched arbitrary: s)
  case Nil
  then show ?case by simp
next
  case (Cons a sched)
  then obtain u where u: "step a s = Some u" "steps sched u = Some s'"
    by (auto split: option.splits)
  from step_trace [OF u(1)] Cons.IH [OF u(2)] show ?case by auto
qed

lemma initialize_returned_step:
  "initialize_returned s \<Longrightarrow> step a s = Some s' \<Longrightarrow> initialize_returned s'"
  by (drule step_trace) (fastforce simp: initialize_returned_def)

lemma uninitialized_fresh:
  "NewJobQueue nm lg backlog programs = Inr s0 \<Longrightarrow> uninitialized s0"
  by (auto simp: uninitialized_def NewJobQueue_fresh)

lemma uninitialized_steps:
  assumes "NewJobQueue nm lg backlog programs = Inr s0" "steps sched s0 = Some s"
  shows "uninitialized s \<or> initialize_returned s"
  using assms(2)
proof (rule steps_invariant)
  show "uninitialized s0 \<or> initialize_returned s0"
    using uninitialized_fresh [OF assms(1)] by simp
next
  fix a u u'
  assume "uninitialized u \<or> initialize_returned u" "step a u = Some u'"
  then show "uninitialized u' \<or> initialize_returned u'"
    using uninitialized_step initialize_returned_step by blast
qed

text \<open>
  C9 (amended). On a queue built by \<open>NewJobQueue\<close>, as long as no call of
  \<open>Initialize\<close> has returned: the only calls that have returned are calls of
  \<open>Enqueue\<close> (so \<open>Join\<close> and \<open>JoinTimeout\<close> never return); no submission has
  panicked (a goroutine stopped by a panic was inside \<open>Stop\<close> or \<open>Initialize\<close>); and
  \<open>Enqueue\<close> returns normally when the backlog has room and blocks when it is full.
\<close>

theorem submissions_before_Initialize:
  assumes "NewJobQueue nm lg backlog programs = Inr s0" and "steps sched s0 = Some s"
    and "\<forall>t p. Return t (Initialize p) None \<notin> set (trace s)"
  shows "(\<forall>t c r. Return t c r \<in> set (trace s) \<longrightarrow> (\<exists>f. c = Enqueue f))
    \<and> (\<forall>t < length (goroutines s). \<forall>c rest e.
          todo (goroutines s ! t) = c # rest \<longrightarrow> at (goroutines s ! t) = Panicked e
          \<longrightarrow> c = Stop \<or> (\<exists>p. c = Initialize p))
    \<and> (\<forall>t < length (goroutines s). \<forall>f rest k.
          todo (goroutines s ! t) = Enqueue f # rest \<longrightarrow> at (goroutines s ! t) = Line k
          \<longrightarrow> (if length (buf (op (q s))) < cap (op (q s))
               then \<exists>s'. step (Go t) s = Some s'
                      \<and> trace s' = trace s @ [Accepted (Plain f), Return t (Enqueue f) None]
               else step (Go t) s = None))"
proof -
  have u: "uninitialized s"
    using uninitialized_steps [OF assms(1,2)] assms(3) by (auto simp: initialize_returned_def)
  have "\<forall>t c r. Return t c r \<in> set (trace s) \<longrightarrow> (\<exists>f. c = Enqueue f)"
    using u by (simp add: uninitialized_def)
  moreover have "\<forall>t < length (goroutines s). \<forall>c rest e.
          todo (goroutines s ! t) = c # rest \<longrightarrow> at (goroutines s ! t) = Panicked e
          \<longrightarrow> c = Stop \<or> (\<exists>p. c = Initialize p)"
    using u unfolding uninitialized_def by blast
  moreover have "\<forall>t < length (goroutines s). \<forall>f rest k.
          todo (goroutines s ! t) = Enqueue f # rest \<longrightarrow> at (goroutines s ! t) = Line k
          \<longrightarrow> (if length (buf (op (q s))) < cap (op (q s))
               then \<exists>s'. step (Go t) s = Some s'
                      \<and> trace s' = trace s @ [Accepted (Plain f), Return t (Enqueue f) None]
               else step (Go t) s = None)"
    using u
    by (auto simp: uninitialized_def step_def goroutine_step_def Enqueue_step_def send_def)
  ultimately show ?thesis by blast
qed

theorem submissions_before_Initialize_witness:
  "\<exists>s. steps [Go 0]
          (projr (NewJobQueue ''db'' True 1
             [[Enqueue (Func 1 Returns)], [Enqueue (Func 2 Returns)]])) = Some s
       \<and> trace s = [Accepted (Plain (Func 1 Returns)), Return 0 (Enqueue (Func 1 Returns)) None]
       \<and> step (Go 1) s = None"
proof -
  let ?s0 = "projr (NewJobQueue ''db'' True 1
             [[Enqueue (Func 1 Returns)], [Enqueue (Func 2 Returns)]])"
  have new: "NewJobQueue ''db'' True 1
             [[Enqueue (Func 1 Returns)], [Enqueue (Func 2 Returns)]] = Inr ?s0"
    by (simp add: NewJobQueue_def)
  have "case steps [Go 0] ?s0 of None \<Rightarrow> False
        | Some s \<Rightarrow>
            trace s = [Accepted (Plain (Func 1 Returns)), Return 0 (Enqueue (Func 1 Returns)) None]
            \<and> 1 < length (goroutines s)
            \<and> todo (goroutines s ! 1) = [Enqueue (Func 2 Returns)]
            \<and> at (goroutines s ! 1) = Line 0
            \<and> \<not> length (buf (op (q s))) < cap (op (q s))"
    by code_simp
  then obtain s where s: "steps [Go 0] ?s0 = Some s"
    "trace s = [Accepted (Plain (Func 1 Returns)), Return 0 (Enqueue (Func 1 Returns)) None]"
    "1 < length (goroutines s)" "todo (goroutines s ! 1) = [Enqueue (Func 2 Returns)]"
    "at (goroutines s ! 1) = Line 0" "\<not> length (buf (op (q s))) < cap (op (q s))"
    by (auto split: option.splits)
  have "\<forall>t p. Return t (Initialize p) None \<notin> set (trace s)"
    by (simp add: s(2))
  from submissions_before_Initialize [OF new s(1) this] s(3-6)
  have "step (Go 1) s = None" by auto
  with s(1,2) show ?thesis by blast
qed

text \<open>
  The claim as stated fails: with a backlog of one and \<open>Initialize\<close> never called,
  \<open>Enqueue\<close> returns normally.
\<close>

theorem submissions_before_Initialize_counterexample:
  "(case steps [Go 0]
           (projr (NewJobQueue ''db'' True 1 [[Enqueue (Func 1 Returns)]])) of
      None \<Rightarrow> False
    | Some s \<Rightarrow>
        trace s = [Accepted (Plain (Func 1 Returns)), Return 0 (Enqueue (Func 1 Returns)) None]
        \<and> ctx (q s) = None \<and> todo (goroutines s ! 0) = [])"
  by code_simp



subsection \<open>Every wrapper in flight has a caller waiting for it\<close>

lemma waited_for_idle:
  "waited_for s \<Longrightarrow> t < length (goroutines s) \<Longrightarrow> at (goroutines s ! t) \<noteq> Awaiting
   \<Longrightarrow> owned t s = []"
  unfolding waited_for_def by (erule allE [of _ t]) auto

lemma owned_send_other:
  "send x s = Proceeds s1 \<Longrightarrow> owner x \<noteq> Some t \<Longrightarrow> owned t s1 = owned t s"
  by (erule send_cases) (auto simp: owned_def in_flight_def)

lemma owned_send_own:
  "send x s = Proceeds s1 \<Longrightarrow> owner x = Some t \<Longrightarrow> owned t s = [] \<Longrightarrow> owned t s1 = [x]"
  by (erule send_cases) (auto simp: owned_def in_flight_def)

lemma owned_stmt:
  "k < length (body_of c) \<Longrightarrow> (body_of c ! k) s = Inr s1 \<Longrightarrow> owned t s1 = owned t s"
  by (drule (1) stmt_keeps) (simp add: owned_def in_flight_def)

lemma owned_move [simp]: "owned u (move t p s) = owned u s"
  by (simp add: owned_def in_flight_def)

lemma owned_finish [simp]: "owned u (finish t r s) = owned u s"
  by (simp add: owned_def in_flight_def)

text \<open>Goroutine \<open>t\<close> changes its own record; it has nothing in flight at that moment.\<close>

lemma waited_for_update:
  assumes "waited_for s" "t < length (goroutines s)" "owned t s = []"
    "\<And>u. owned u s' = owned u s"
    "goroutines s' = (goroutines s)[t := g]"
  shows "waited_for s'"
  unfolding waited_for_def
proof
  fix u
  show "owned u s' = [] \<or>
        (\<exists>x c rest. owned u s' = [x] \<and> u < length (goroutines s')
           \<and> at (goroutines s' ! u) = Awaiting \<and> call_of x = Some c
           \<and> todo (goroutines s' ! u) = c # rest)"
  proof (cases "u = t")
    case True
    then show ?thesis using assms(3,4) by simp
  next
    case False
    then show ?thesis
      using assms(1,4,5) unfolding waited_for_def
      by (auto simp: nth_list_update dest!: spec [of _ u])
  qed
qed

lemma waited_for_move:
  "waited_for s \<Longrightarrow> t < length (goroutines s) \<Longrightarrow> owned t s = []
   \<Longrightarrow> waited_for (move t p s)"
  by (rule waited_for_update [of s t]) simp_all

lemma waited_for_finish:
  "waited_for s \<Longrightarrow> t < length (goroutines s) \<Longrightarrow> owned t s = []
   \<Longrightarrow> waited_for (finish t r s)"
  by (rule waited_for_update [of s t]) simp_all

lemma waited_for_cong:
  "waited_for s \<Longrightarrow> (\<And>u. owned u s1 = owned u s) \<Longrightarrow> goroutines s1 = goroutines s
   \<Longrightarrow> waited_for s1"
  by (simp add: waited_for_def)

text \<open>Goroutine \<open>t\<close> submits a wrapper of its own and waits.\<close>

lemma waited_for_submit:
  assumes "waited_for s" "t < length (goroutines s)" "at (goroutines s ! t) \<noteq> Awaiting"
    "send x s = Proceeds s1" "owner x = Some t" "call_of x = Some c"
    "todo (goroutines s ! t) = c # rest"
  shows "waited_for (move t Awaiting s1)"
  unfolding waited_for_def
proof
  fix u
  let ?s' = "move t Awaiting s1"
  have g: "goroutines s1 = goroutines s" using assms(4) by (rule send_goroutines)
  show "owned u ?s' = [] \<or>
        (\<exists>x c rest. owned u ?s' = [x] \<and> u < length (goroutines ?s')
           \<and> at (goroutines ?s' ! u) = Awaiting \<and> call_of x = Some c
           \<and> todo (goroutines ?s' ! u) = c # rest)"
  proof (cases "u = t")
    case True
    have "owned t s = []" using assms(1-3) by (rule waited_for_idle)
    then have "owned t s1 = [x]" using assms(4,5) owned_send_own by blast
    then show ?thesis using True assms(2,6,7) g by simp
  next
    case False
    then have "owned u s1 = owned u s" using assms(4,5) owned_send_other by auto
    then show ?thesis
      using False assms(1) g unfolding waited_for_def
      by (auto simp: nth_list_update dest!: spec [of _ u])
  qed
qed

lemma waited_for_Go:
  assumes "waited_for s" "goroutine_step t s = Some s'"
  shows "waited_for s'"
  using assms(2)
proof (cases rule: goroutine_step_cases)
  case (Enqueue f rest k s1)
  have 0: "owned t s = []" using assms(1) Enqueue(1,3) waited_for_idle by auto
  have 1: "\<And>u. owned u s1 = owned u s" using Enqueue(4) owned_send_other by auto
  have 2: "goroutines s1 = goroutines s" using Enqueue(4) by (rule send_goroutines)
  have "waited_for s1" using assms(1) 1 2 by (rule waited_for_cong)
  then show ?thesis unfolding Enqueue(5)
    by (rule waited_for_finish) (simp_all add: 0 1 2 Enqueue(1))
next
  case (Join f rest k s1)
  then show ?thesis using assms(1) waited_for_submit [of s t "JoinWrapper t f" s1] by auto
next
  case (Started startTimeout f rest k)
  have "owned t s = []" using assms(1) Started(1,3) waited_for_idle by auto
  with assms(1) Started(1) show ?thesis unfolding Started(4) by (rule waited_for_move)
next
  case (Submit startTimeout f rest started s1)
  then show ?thesis
    using assms(1) waited_for_submit [of s t "JoinTimeoutWrapper t started startTimeout f" s1]
    by auto
next
  case (Panic c rest e)
  have "owned t s = []" using assms(1) Panic(1,3) waited_for_idle by auto
  with assms(1) Panic(1) show ?thesis unfolding Panic(5) by (rule waited_for_move)
next
  case (Stmt c rest k s1)
  have 0: "owned t s = []" using assms(1) Stmt(1,3) waited_for_idle by auto
  have 1: "\<And>u. owned u s1 = owned u s" using Stmt(4,5) owned_stmt by auto
  have 2: "goroutines s1 = goroutines s" using stmt_keeps [OF Stmt(4,5)] by simp
  have "waited_for s1" using assms(1) 1 2 by (rule waited_for_cong)
  then show ?thesis unfolding Stmt(7)
    by (rule waited_for_move) (simp_all add: 0 1 2 Stmt(1))
next
  case (Last c rest k s1)
  have 0: "owned t s = []" using assms(1) Last(1,3) waited_for_idle by auto
  have 1: "\<And>u. owned u s1 = owned u s" using Last(4,5) owned_stmt by auto
  have 2: "goroutines s1 = goroutines s" using stmt_keeps [OF Last(4,5)] by simp
  have "waited_for s1" using assms(1) 1 2 by (rule waited_for_cong)
  then show ?thesis unfolding Last(7)
    by (rule waited_for_finish) (simp_all add: 0 1 2 Last(1))
qed

text \<open>\<open>Run\<close> keeps what is in flight, or drops the operation it holds.\<close>

lemma waited_for_shrink:
  assumes "waited_for s" "goroutines s' = goroutines s"
    "in_flight s' = in_flight s \<or> (\<exists>x. in_flight s = x # in_flight s')"
  shows "waited_for s'"
  unfolding waited_for_def
proof
  fix u
  from assms(3) have "owned u s' = owned u s \<or> (\<exists>x. owned u s = x # owned u s')"
    by (auto simp: owned_def)
  moreover from assms(1) have "owned u s = [] \<or>
        (\<exists>x c rest. owned u s = [x] \<and> u < length (goroutines s)
           \<and> at (goroutines s ! u) = Awaiting \<and> call_of x = Some c
           \<and> todo (goroutines s ! u) = c # rest)"
    unfolding waited_for_def by blast
  ultimately show "owned u s' = [] \<or>
        (\<exists>x c rest. owned u s' = [x] \<and> u < length (goroutines s')
           \<and> at (goroutines s' ! u) = Awaiting \<and> call_of x = Some c
           \<and> todo (goroutines s' ! u) = c # rest)"
    using assms(2) by auto
qed

lemma waited_for_deliver:
  assumes "waited_for s" "run s = Signal x v" "owner x = Some t"
  shows "waited_for ((finish t r s)\<lparr>run := Loop\<rparr>)"
  unfolding waited_for_def
proof
  fix u
  let ?s' = "(finish t r s)\<lparr>run := Loop\<rparr>"
  have fl: "in_flight s = x # in_flight ?s'"
    using assms(2) by (simp add: in_flight_def)
  from assms(1) have J: "owned u s = [] \<or>
        (\<exists>x c rest. owned u s = [x] \<and> u < length (goroutines s)
           \<and> at (goroutines s ! u) = Awaiting \<and> call_of x = Some c
           \<and> todo (goroutines s ! u) = c # rest)"
    unfolding waited_for_def by blast
  show "owned u ?s' = [] \<or>
        (\<exists>x c rest. owned u ?s' = [x] \<and> u < length (goroutines ?s')
           \<and> at (goroutines ?s' ! u) = Awaiting \<and> call_of x = Some c
           \<and> todo (goroutines ?s' ! u) = c # rest)"
  proof (cases "u = t")
    case True
    then have "owned u s = x # owned u ?s'" using fl assms(3) by (simp add: owned_def)
    with J show ?thesis by auto
  next
    case False
    then have "owned u ?s' = owned u s" using fl assms(3) by (simp add: owned_def)
    with J False show ?thesis by (auto simp: nth_list_update)
  qed
qed

lemma waited_for_Worker:
  assumes "waited_for s" "Run_step s = Some s'"
  shows "waited_for s'"
  using assms(2)
proof (cases rule: Run_step_cases)
  case (Deliver x v t)
  then show ?thesis using assms(1) waited_for_deliver by simp
qed (use assms(1) in \<open>auto intro!: waited_for_shrink [of s] simp: in_flight_def\<close>)

lemma waited_for_Receive:
  assumes "waited_for s" "Run_receive s = Some s'"
  shows "waited_for s'"
  using assms(2)
  by (cases rule: Run_receive_cases)
     (use assms(1) in \<open>auto intro!: waited_for_shrink [of s] simp: in_flight_def\<close>)

lemma waited_for_Done:
  assumes "waited_for s" "Run_done s = Some s'"
  shows "waited_for s'"
  using assms(2)
  by (cases rule: Run_done_cases)
     (use assms(1) in \<open>auto intro!: waited_for_shrink [of s] simp: in_flight_def\<close>)

lemma waited_for_step: "waited_for s \<Longrightarrow> step a s = Some s' \<Longrightarrow> waited_for s'"
  by (erule step_cases)
     (auto dest: waited_for_Go waited_for_Worker waited_for_Receive waited_for_Done,
      auto simp: waited_for_def owned_def in_flight_def)

lemma waited_for_fresh: "NewJobQueue nm lg backlog programs = Inr s0 \<Longrightarrow> waited_for s0"
  by (simp add: waited_for_def owned_def in_flight_def NewJobQueue_fresh)

lemma waited_for_steps:
  assumes "NewJobQueue nm lg backlog programs = Inr s0" "steps sched s0 = Some s"
  shows "waited_for s"
  using assms(2) waited_for_fresh [OF assms(1)] waited_for_step
  by (rule steps_invariant)



subsection \<open>Stop after Stop\<close>

lemma stmt_Stop:
  "length (body_of Stop) = 5"
  "(body_of Stop ! 0) s =
     (if logger (q s)
      then Inr (put (Message LOG_DEBUG ''queue'' (name (q s) @ '' Queue::Stop'') None) s)
      else Inl NilDereference)"
  "(body_of Stop ! 1) s = call_cancel s"
  "(body_of Stop ! Suc 0) s = call_cancel s"
  "(body_of Stop ! 2) s = close_op s"
  by (simp_all add: body_of_def Stop_body_def log_Message_def)

lemma send_logger: "send x s = Proceeds s1 \<Longrightarrow> logger (q s1) = logger (q s)"
  by (erule send_cases) auto

lemma stop_logged_Go:
  assumes "stop_logged s" "goroutine_step t s = Some s'"
  shows "stop_logged s'"
  using assms(2)
proof (cases rule: goroutine_step_cases)
  case (Enqueue f rest k s1)
  then show ?thesis
    using assms(1) send_logger [of "Plain f" s s1] send_goroutines [of "Plain f" s s1]
      send_trace [of "Plain f" s s1]
    by (auto simp: stop_logged_def nth_list_update)
next
  case (Join f rest k s1)
  then show ?thesis
    using assms(1) send_logger [of _ s s1] send_goroutines [of _ s s1] send_trace [of _ s s1]
    by (auto simp: stop_logged_def nth_list_update)
next
  case (Started startTimeout f rest k)
  then show ?thesis using assms(1) by (auto simp: stop_logged_def nth_list_update)
next
  case (Submit startTimeout f rest started s1)
  then show ?thesis
    using assms(1) send_logger [of _ s s1] send_goroutines [of _ s s1] send_trace [of _ s s1]
    by (auto simp: stop_logged_def nth_list_update)
next
  case (Panic c rest e)
  then show ?thesis using assms(1) by (auto simp: stop_logged_def nth_list_update)
next
  case (Stmt c rest k s1)
  have "c = Stop \<and> k = 0 \<longrightarrow> logger (q s)"
    using Stmt(5) by (auto simp: stmt_Stop split: if_splits)
  moreover have "k = 0 \<or> 1 \<le> k" by arith
  ultimately show ?thesis
    using Stmt assms(1) stmt_keeps [of k c s s1]
    by (auto simp: stop_logged_def nth_list_update)
next
  case (Last c rest k s1)
  have "c = Stop \<longrightarrow> 1 \<le> k" using Last(6) by (auto simp: stmt_Stop)
  with Last show ?thesis
    using assms(1) stmt_keeps [of k c s s1]
    by (auto simp: stop_logged_def nth_list_update)
qed

lemma stop_logged_Worker: "stop_logged s \<Longrightarrow> Run_step s = Some s' \<Longrightarrow> stop_logged s'"
  by (erule Run_step_cases) (auto simp: stop_logged_def nth_list_update)

lemma stop_logged_Receive: "stop_logged s \<Longrightarrow> Run_receive s = Some s' \<Longrightarrow> stop_logged s'"
  by (erule Run_receive_cases) (auto simp: stop_logged_def)

lemma stop_logged_Done: "stop_logged s \<Longrightarrow> Run_done s = Some s' \<Longrightarrow> stop_logged s'"
  by (erule Run_done_cases) (auto simp: stop_logged_def)

lemma stop_logged_step: "stop_logged s \<Longrightarrow> step a s = Some s' \<Longrightarrow> stop_logged s'"
  by (erule step_cases)
     (auto dest: stop_logged_Go stop_logged_Worker stop_logged_Receive stop_logged_Done,
      auto simp: stop_logged_def)

lemma stop_logged_fresh: "NewJobQueue nm lg backlog programs = Inr s0 \<Longrightarrow> stop_logged s0"
  by (auto simp: stop_logged_def NewJobQueue_fresh)

text \<open>
  A call of \<open>Stop\<close> on a closed channel stays where it is until its own goroutine moves,
  and that goroutine cannot get past \<open>close(q.op)\<close>.
\<close>

lemma stop_fails_Go:
  assumes "stop_fails t rest s" "goroutine_step t' s = Some s'"
  shows "stop_fails t rest s'"
  using assms(2)
proof (cases rule: goroutine_step_cases)
  case (Enqueue f rest' k s1)
  from Enqueue(4) have "\<not> closed (op (q s))" by (rule send_cases)
  with assms(1) show ?thesis by (simp add: stop_fails_def)
next
  case (Join f rest' k s1)
  from Join(4) have "\<not> closed (op (q s))" by (rule send_cases)
  with assms(1) show ?thesis by (simp add: stop_fails_def)
next
  case (Started startTimeout f rest' k)
  with assms(1) show ?thesis by (auto simp: stop_fails_def nth_list_update)
next
  case (Submit startTimeout f rest' started s1)
  from Submit(4) have "\<not> closed (op (q s))" by (rule send_cases)
  with assms(1) show ?thesis by (simp add: stop_fails_def)
next
  case (Panic c rest' e)
  show ?thesis
  proof (cases "t' = t")
    case False
    with Panic assms(1) show ?thesis by (auto simp: stop_fails_def nth_list_update)
  next
    case True
    with Panic assms(1) have c: "c = Stop" and rest: "rest' = rest"
      by (auto simp: stop_fails_def)
    with Panic(6) obtain k where k: "at (goroutines s ! t') = Line k" "k < 5"
      "(body_of Stop ! k) s = Inl e"
      by (auto simp: stmt_Stop)
    with True assms(1) have "k = 0 \<or> k = 1 \<or> k = 2" by (auto simp: stop_fails_def)
    with k(3) assms(1) have "e = NilDereference \<or> e = CloseOfClosedChannel"
      by (auto simp: stmt_Stop stop_fails_def call_cancel_def close_op_def
          split: option.splits if_splits)
    with Panic True assms(1) show ?thesis by (auto simp: stop_fails_def)
  qed
next
  case (Stmt c rest' k s1)
  note keeps = stmt_keeps [OF Stmt(4,5)] stmt_closed(1) [OF Stmt(4,5)]
  show ?thesis
  proof (cases "t' = t")
    case False
    with Stmt assms(1) keeps show ?thesis by (auto simp: stop_fails_def nth_list_update)
  next
    case True
    with Stmt assms(1) have c: "c = Stop" and "k = 0 \<or> k = 1 \<or> k = 2"
      by (auto simp: stop_fails_def)
    moreover have "k \<noteq> 2"
      using Stmt(5) c assms(1) by (auto simp: stmt_Stop stop_fails_def close_op_def)
    ultimately show ?thesis
      using Stmt True assms(1) keeps by (auto simp: stop_fails_def)
  qed
next
  case (Last c rest' k s1)
  note keeps = stmt_keeps [OF Last(4,5)] stmt_closed(1) [OF Last(4,5)]
  show ?thesis
  proof (cases "t' = t")
    case False
    with Last assms(1) keeps show ?thesis by (auto simp: stop_fails_def nth_list_update)
  next
    case True
    with Last assms(1) show ?thesis by (auto simp: stop_fails_def stmt_Stop)
  qed
qed

lemma stop_fails_Worker: "stop_fails t rest s \<Longrightarrow> Run_step s = Some s' \<Longrightarrow> stop_fails t rest s'"
  by (erule Run_step_cases) (auto simp: stop_fails_def nth_list_update)

lemma stop_fails_Receive:
  "stop_fails t rest s \<Longrightarrow> Run_receive s = Some s' \<Longrightarrow> stop_fails t rest s'"
  by (erule Run_receive_cases) (auto simp: stop_fails_def)

lemma stop_fails_Done: "stop_fails t rest s \<Longrightarrow> Run_done s = Some s' \<Longrightarrow> stop_fails t rest s'"
  by (erule Run_done_cases) (auto simp: stop_fails_def)

lemma stop_fails_step: "stop_fails t rest s \<Longrightarrow> step a s = Some s' \<Longrightarrow> stop_fails t rest s'"
  by (erule step_cases)
     (auto dest: stop_fails_Go stop_fails_Worker stop_fails_Receive stop_fails_Done,
      auto simp: stop_fails_def)

text \<open>
  C8 (amended). Once a call of \<open>Stop\<close> has returned, a call of \<open>Stop\<close> that begins
  later never returns, whatever the other goroutines do in the meantime: its \<open>Message\<close>
  succeeds; at \<open>q.cancel()\<close> it panics with a nil dereference while \<open>q.cancel\<close> is nil,
  and goes on to \<open>close(q.op)\<close> when an \<open>Initialize\<close> has set \<open>q.cancel\<close> again; at
  \<open>close(q.op)\<close> it panics, the channel being closed already.
\<close>

theorem Stop_after_Stop_panics:
  assumes "NewJobQueue nm lg backlog programs = Inr s0" and "steps sched s0 = Some s"
    and "Return u Stop None \<in> set (trace s)"
    and "t < length (goroutines s)" and "todo (goroutines s ! t) = Stop # rest"
    and "at (goroutines s ! t) = Line 0"
    and "steps sched' s = Some s'"
  shows "todo (goroutines s' ! t) = Stop # rest
     \<and> at (goroutines s' ! t)
         \<in> {Line 0, Line 1, Line 2, Panicked NilDereference, Panicked CloseOfClosedChannel}
     \<and> (at (goroutines s' ! t) = Line 0 \<longrightarrow>
          step (Go t) s'
            = Some (move t (Line 1)
                (put (Message LOG_DEBUG ''queue'' (name (q s') @ '' Queue::Stop'') None) s')))
     \<and> (at (goroutines s' ! t) = Line 1 \<longrightarrow>
          step (Go t) s'
            = (case cancel (q s') of
                 None \<Rightarrow> Some (move t (Panicked NilDereference) s')
               | Some k \<Rightarrow> Some (move t (Line 2) (s'\<lparr>ctxs := (ctxs s')[k := True]\<rparr>))))
     \<and> (at (goroutines s' ! t) = Line 2 \<longrightarrow>
          step (Go t) s' = Some (move t (Panicked CloseOfClosedChannel) s'))"
proof -
  have "stop_closes s"
    using assms(2) stop_closes_fresh [OF assms(1)] stop_closes_step
    by (rule steps_invariant)
  moreover have "stop_logged s"
    using assms(2) stop_logged_fresh [OF assms(1)] stop_logged_step
    by (rule steps_invariant)
  ultimately have "stop_fails t rest s"
    using assms(3-6) by (auto simp: stop_closes_def stop_logged_def stop_fails_def)
  with assms(7) have *: "stop_fails t rest s'"
    using stop_fails_step by (rule steps_invariant)
  then have "at (goroutines s' ! t) = Line 0 \<longrightarrow>
          step (Go t) s'
            = Some (move t (Line 1)
                (put (Message LOG_DEBUG ''queue'' (name (q s') @ '' Queue::Stop'') None) s'))"
    by (simp add: stop_fails_def step_def goroutine_step_def straight_def stmt_Stop)
  moreover from * have "at (goroutines s' ! t) = Line 1 \<longrightarrow>
          step (Go t) s'
            = (case cancel (q s') of
                 None \<Rightarrow> Some (move t (Panicked NilDereference) s')
               | Some k \<Rightarrow> Some (move t (Line 2) (s'\<lparr>ctxs := (ctxs s')[k := True]\<rparr>)))"
    by (simp add: stop_fails_def step_def goroutine_step_def straight_def stmt_Stop
        call_cancel_def numeral_2_eq_2 split: option.splits)
  moreover from * have "at (goroutines s' ! t) = Line 2 \<longrightarrow>
          step (Go t) s' = Some (move t (Panicked CloseOfClosedChannel) s')"
    by (simp add: stop_fails_def step_def goroutine_step_def straight_def stmt_Stop
        close_op_def)
  ultimately show ?thesis using * by (simp add: stop_fails_def)
qed

theorem Stop_after_Stop_panics_witness:
  "\<exists>s s'. steps [Go 0, Go 0, Go 0, Go 0, Go 0, Go 0, Go 0, Go 0, Go 0]
          (projr (NewJobQueue ''db'' True 1
             [[Initialize LiveContext, Stop, Initialize LiveContext, Stop]])) = Some s
       \<and> Return 0 Stop None \<in> set (trace s)
       \<and> at (goroutines s ! 0) = Line 0
       \<and> steps [Go 0, Go 0] s = Some s'
       \<and> at (goroutines s' ! 0) = Line 2
       \<and> step (Go 0) s' = Some (move 0 (Panicked CloseOfClosedChannel) s')"
proof -
  let ?s0 = "projr (NewJobQueue ''db'' True 1
             [[Initialize LiveContext, Stop, Initialize LiveContext, Stop]])"
  let ?sched = "[Go 0, Go 0, Go 0, Go 0, Go 0, Go 0, Go 0, Go 0, Go 0]"
  have new: "NewJobQueue ''db'' True 1
             [[Initialize LiveContext, Stop, Initialize LiveContext, Stop]] = Inr ?s0"
    by (simp add: NewJobQueue_def)
  have "case steps ?sched ?s0 of None \<Rightarrow> False
        | Some s \<Rightarrow> Return 0 Stop None \<in> set (trace s) \<and> 0 < length (goroutines s)
            \<and> todo (goroutines s ! 0) = [Stop] \<and> at (goroutines s ! 0) = Line 0
            \<and> (case steps [Go 0, Go 0] s of None \<Rightarrow> False
               | Some s' \<Rightarrow> at (goroutines s' ! 0) = Line 2)"
    by code_simp
  then obtain s s' where s: "steps ?sched ?s0 = Some s" "Return 0 Stop None \<in> set (trace s)"
    "0 < length (goroutines s)" "todo (goroutines s ! 0) = [Stop]"
    "at (goroutines s ! 0) = Line 0" "steps [Go 0, Go 0] s = Some s'"
    and s': "at (goroutines s' ! 0) = Line 2"
    by (auto split: option.splits)
  from Stop_after_Stop_panics [OF new s] s' s(1,2,5,6) show ?thesis by blast
qed

text \<open>
  The claim as stated fails: on a queue that was initialized and stopped once, a second
  \<open>Stop\<close> that follows at once faults with a nil dereference in \<open>q.cancel()\<close>, and
  not by closing the closed channel.
\<close>

theorem Stop_twice_counterexample:
  "\<not> isl (JobQueue_Initialize LiveContext (projr (NewJobQueue ''db'' True 1 [])))
   \<and> \<not> isl (JobQueue_Stop
         (projr (JobQueue_Initialize LiveContext (projr (NewJobQueue ''db'' True 1 [])))))
   \<and> JobQueue_Stop (projr (JobQueue_Stop
         (projr (JobQueue_Initialize LiveContext (projr (NewJobQueue ''db'' True 1 []))))))
       = Inl NilDereference
   \<and> JobQueue_Stop (projr (JobQueue_Stop
         (projr (JobQueue_Initialize LiveContext (projr (NewJobQueue ''db'' True 1 []))))))
       \<noteq> Inl CloseOfClosedChannel"
  by code_simp



subsection \<open>Run works off what was accepted\<close>

lemma send_run:
  "send x s = Proceeds s1 \<Longrightarrow>
     run s1 = run s \<or> (\<exists>k. run s = Select k \<and> (run s1 = Call x \<or> run s1 = RunReturned))"
  by (erule send_cases) auto

lemma goroutine_step_run:
  assumes "goroutine_step t s = Some s'"
  shows "run s' = run s \<or> (\<exists>k. run s = Select k \<and> ((\<exists>x. run s' = Call x) \<or> run s' = RunReturned))"
  using assms
proof (cases rule: goroutine_step_cases)
  case (Enqueue f rest k s1)
  then show ?thesis using send_run [of "Plain f" s s1] by auto
next
  case (Join f rest k s1)
  then show ?thesis using send_run [of _ s s1] by auto
next
  case (Submit startTimeout f rest started s1)
  then show ?thesis using send_run [of _ s s1] by auto
next
  case (Stmt c rest k s1)
  then show ?thesis using stmt_keeps [of k c s s1] by simp
next
  case (Last c rest k s1)
  then show ?thesis using stmt_keeps [of k c s s1] by simp
qed simp_all









text \<open>Once \<open>Run\<close> is over, nothing is called any more.\<close>

lemma goroutine_step_invoked:
  assumes "goroutine_step t s = Some s'"
  shows "invoked (trace s') = invoked (trace s)"
  using assms
proof (cases rule: goroutine_step_cases)
  case (Stmt c rest k s1)
  then show ?thesis using stmt_keeps [of k c s s1] by simp
next
  case (Last c rest k s1)
  then show ?thesis using stmt_keeps [of k c s s1] by simp
qed (auto dest: send_trace)








subsection \<open>JoinTimeout\<close>

lemma waited_for_held:
  assumes "waited_for s" "x \<in> set (in_flight s)" "owner x = Some t"
  shows "t < length (goroutines s)" "at (goroutines s ! t) = Awaiting"
    "\<exists>c rest. call_of x = Some c \<and> todo (goroutines s ! t) = c # rest"
proof -
  from assms(2,3) have x: "x \<in> set (owned t s)" by (simp add: owned_def)
  then have "owned t s \<noteq> []" by auto
  with assms(1) obtain y c rest where y: "owned t s = [y]" "t < length (goroutines s)"
    "at (goroutines s ! t) = Awaiting" "call_of y = Some c" "todo (goroutines s ! t) = c # rest"
    unfolding waited_for_def by metis
  with x have "y = x" by simp
  with y show "t < length (goroutines s)" "at (goroutines s ! t) = Awaiting"
    "\<exists>c rest. call_of x = Some c \<and> todo (goroutines s ! t) = c # rest"
    by auto
qed





subsection \<open>What Run did last\<close>

lemma work_simps [simp]:
  "work [] = []"
  "work (xs @ ys) = work xs @ work ys"
  "work (Accepted x # es) = work es"
  "work (Return t c r # es) = work es"
  "work (Invoked x cx # es) = Invoked x cx # work es"
  "work (Begun i # es) = Begun i # work es"
  "work (Ended i # es) = Ended i # work es"
  "work (Faulted i # es) = Faulted i # work es"
  by (simp_all add: work_def)

lemma invoked_work: "invoked (work tr) = invoked tr"
  by (induction tr) (auto simp: work_def split: event.splits)

lemma goroutine_step_work:
  assumes "goroutine_step t s = Some s'"
  shows "work (trace s') = work (trace s)"
  using assms
proof (cases rule: goroutine_step_cases)
  case (Stmt c rest k s1)
  then show ?thesis using stmt_keeps [of k c s s1] by simp
next
  case (Last c rest k s1)
  then show ?thesis using stmt_keeps [of k c s s1] by simp
qed (auto dest: send_trace)

lemma worker_log_Go:
  assumes "worker_log s" "goroutine_step t s = Some s'"
  shows "worker_log s'"
  using assms(1) goroutine_step_run [OF assms(2)] goroutine_step_work [OF assms(2)]
  by (auto simp: worker_log_def)

lemma worker_log_Worker:
  assumes "worker_log s" "Run_step s = Some s'"
  shows "worker_log s'"
  using assms(2)
proof (cases rule: Run_step_cases)
  case (End x i)
  from assms(1) End(1,2) obtain c before where
    "work (trace s) = before @ [Invoked x c, Begun i]"
    by (auto simp: worker_log_def)
  with End show ?thesis by (simp add: worker_log_def)
next
  case (Stuck x)
  then show ?thesis using assms(1) by simp
qed (simp_all add: worker_log_def)

lemma worker_log_step:
  assumes "worker_log s" "step a s = Some s'"
  shows "worker_log s'"
  using assms(2)
proof (cases rule: step_cases)
  case (Go t)
  with assms(1) show ?thesis by (simp add: worker_log_Go)
next
  case Worker
  with assms(1) show ?thesis by (simp add: worker_log_Worker)
next
  case Receive
  from Receive(2) show ?thesis by (cases rule: Run_receive_cases) (simp_all add: worker_log_def)
next
  case CtxDone
  from CtxDone(2) show ?thesis by (cases rule: Run_done_cases) (simp_all add: worker_log_def)
next
  case (Tick d)
  with assms(1) show ?thesis by (simp add: worker_log_def)
next
  case (ParentCancel k)
  with assms(1) show ?thesis by (simp add: worker_log_def)
qed

lemma worker_log_steps:
  assumes "NewJobQueue nm lg backlog programs = Inr s0" "steps sched s0 = Some s"
  shows "worker_log s"
proof -
  have "worker_log s0" using assms(1) by (simp add: worker_log_def NewJobQueue_fresh)
  with assms(2) show ?thesis using worker_log_step by (rule steps_invariant)
qed

subsection \<open>Join\<close>

text \<open>
  A call returns in one of two ways: \<open>Enqueue\<close>, \<open>Initialize\<close> and \<open>Stop\<close> by coming
  to their end, \<open>Join\<close> and \<open>JoinTimeout\<close> by receiving from \<open>c\<close> what a wrapper sends.
\<close>

lemma Return_Go:
  assumes "goroutine_step t' s = Some s'" "trace s' = trace s @ evs" "Return t c r \<in> set evs"
  shows "r = None \<and> (\<forall>f. c \<noteq> Join f) \<and> (\<forall>d f. c \<noteq> JoinTimeout d f)"
  using assms(1)
proof (cases rule: goroutine_step_cases)
  case (Enqueue f rest k s1)
  with assms(2,3) send_trace [of "Plain f" s s1] send_goroutines [of "Plain f" s s1]
  show ?thesis by auto
next
  case (Join f rest k s1)
  with assms(2,3) send_trace [of _ s s1] show ?thesis by auto
next
  case (Started startTimeout f rest k)
  with assms(2,3) show ?thesis by auto
next
  case (Submit startTimeout f rest started s1)
  with assms(2,3) send_trace [of _ s s1] show ?thesis by auto
next
  case (Panic c rest e)
  with assms(2,3) show ?thesis by auto
next
  case (Stmt c rest k s1)
  with assms(2,3) stmt_keeps [of k c s s1] show ?thesis by auto
next
  case (Last c' rest k s1)
  with assms(2,3) stmt_keeps [of k c' s s1] show ?thesis by (auto simp: body_of_def)
qed

lemma Return_step:
  assumes "step a s = Some s'" "trace s' = trace s @ evs" "Return t c r \<in> set evs"
  shows "(r = None \<and> (\<forall>f. c \<noteq> Join f) \<and> (\<forall>d f. c \<noteq> JoinTimeout d f))
     \<or> (\<exists>x v. a = Worker \<and> run s = Signal x v \<and> owner x = Some t \<and> r = Some v
           \<and> t < length (goroutines s) \<and> hd (todo (goroutines s ! t)) = c
           \<and> evs = [Return t c r])"
  using assms(1)
proof (cases rule: step_cases)
  case (Go t')
  with Return_Go [OF _ assms(2,3)] show ?thesis by simp
next
  case Worker
  from Worker(2) assms(2,3) Worker(1) show ?thesis
    by (cases rule: Run_step_cases) auto
next
  case Receive
  from Receive(2) assms(2,3) show ?thesis by (cases rule: Run_receive_cases) auto
next
  case CtxDone
  from CtxDone(2) assms(2,3) show ?thesis by (cases rule: Run_done_cases) auto
next
  case (Tick d)
  with assms(2,3) show ?thesis by auto
next
  case (ParentCancel k)
  with assms(2,3) show ?thesis by auto
qed

text \<open>
  C6. Whenever a call \<open>Join(ctx, f)\<close> of goroutine \<open>t\<close> returns, in any run of the
  system: it returns \<open>true\<close>; the last thing \<open>Run\<close> did was to call the wrapper of this
  call, in which \<open>f\<close> began and ended; every operation accepted before the wrapper was
  called before it, and every operation accepted after it is still in the channel, not
  called.
\<close>

theorem Join_returns_after_operation:
  assumes "NewJobQueue nm lg backlog programs = Inr s0" and "steps sched s0 = Some s"
    and "step a s = Some s'" and "trace s' = trace s @ evs"
    and "Return t (Join f) r \<in> set evs"
  shows "r = Some True
     \<and> (\<exists>i c before. f = Func i Returns
           \<and> work (trace s) = before @ [Invoked (JoinWrapper t f) c, Begun i, Ended i])
     \<and> (\<exists>before. invoked (trace s) = before @ [JoinWrapper t f]
           \<and> accepted (trace s) = before @ [JoinWrapper t f] @ buf (op (q s)))
     \<and> evs = [Return t (Join f) r]"
proof -
  from Return_step [OF assms(3-5)] obtain x v where x: "run s = Signal x v" "owner x = Some t"
    "r = Some v" "hd (todo (goroutines s ! t)) = Join f" "evs = [Return t (Join f) r]"
    by auto
  have "x \<in> set (in_flight s)" using x(1) by (simp add: in_flight_def)
  from waited_for_held(3) [OF waited_for_steps [OF assms(1,2)] this x(2)] x(4)
  have "call_of x = Some (Join f)" by auto
  with x(2) have xf: "x = JoinWrapper t f" by (cases x) auto
  have "logged (run s) (work (trace s))"
    using worker_log_steps [OF assms(1,2)] by (simp add: worker_log_def)
  with x(1) xf have v: "v" and "\<exists>i c before. wrapped x = Func i Returns
      \<and> work (trace s) = before @ [Invoked x c, Begun i, Ended i]"
    by (auto split: if_splits)
  then obtain i c before where w: "f = Func i Returns"
    "work (trace s) = before @ [Invoked (JoinWrapper t f) c, Begun i, Ended i]"
    using xf by auto
  have "invoked (trace s) = invoked (work (trace s))" by (simp add: invoked_work)
  with w(2) have inv: "invoked (trace s) = invoked before @ [JoinWrapper t f]" by simp
  have "in_order s"
    using assms(2) in_order_fresh [OF assms(1)] in_order_step by (rule steps_invariant)
  with x(1) have "accepted (trace s) = invoked (trace s) @ buf (op (q s))"
    by (auto simp: in_order_def)
  with inv w x(3,5) v show ?thesis by auto
qed

theorem Join_returns_after_operation_witness:
  "\<exists>s s'. steps [Go 0, Go 0, Worker, Worker, Go 1, Go 2, Receive, Worker, Go 3, Worker, Worker,
               Receive, Worker, Worker]
          (projr (NewJobQueue ''db'' True 2
             [[Initialize LiveContext], [Enqueue (Func 1 Returns)], [Join (Func 2 Returns)],
              [Enqueue (Func 3 Returns)]])) = Some s
       \<and> step Worker s = Some s'
       \<and> trace s' = trace s @ [Return 2 (Join (Func 2 Returns)) (Some True)]
       \<and> buf (op (q s)) = [Plain (Func 3 Returns)]
       \<and> (\<exists>c before. work (trace s)
              = before @ [Invoked (JoinWrapper 2 (Func 2 Returns)) c, Begun 2, Ended 2])
       \<and> (\<exists>before. invoked (trace s) = before @ [JoinWrapper 2 (Func 2 Returns)]
              \<and> accepted (trace s)
                  = before @ [JoinWrapper 2 (Func 2 Returns)] @ [Plain (Func 3 Returns)])"
proof -
  let ?s0 = "projr (NewJobQueue ''db'' True 2
             [[Initialize LiveContext], [Enqueue (Func 1 Returns)], [Join (Func 2 Returns)],
              [Enqueue (Func 3 Returns)]])"
  let ?sched = "[Go 0, Go 0, Worker, Worker, Go 1, Go 2, Receive, Worker, Go 3, Worker, Worker,
               Receive, Worker, Worker]"
  have new: "NewJobQueue ''db'' True 2
             [[Initialize LiveContext], [Enqueue (Func 1 Returns)], [Join (Func 2 Returns)],
              [Enqueue (Func 3 Returns)]] = Inr ?s0"
    by (simp add: NewJobQueue_def)
  have "case steps ?sched ?s0 of None \<Rightarrow> False
        | Some s \<Rightarrow> buf (op (q s)) = [Plain (Func 3 Returns)]
            \<and> (case step Worker s of None \<Rightarrow> False
               | Some s' \<Rightarrow> trace s' = trace s @ [Return 2 (Join (Func 2 Returns)) (Some True)])"
    by code_simp
  then obtain s s' where s: "steps ?sched ?s0 = Some s" "step Worker s = Some s'"
    "trace s' = trace s @ [Return 2 (Join (Func 2 Returns)) (Some True)]"
    and b: "buf (op (q s)) = [Plain (Func 3 Returns)]"
    by (auto split: option.splits)
  from Join_returns_after_operation [OF new s] b s show ?thesis
    by (intro exI [of _ s] exI [of _ s']) auto
qed



subsection \<open>A handler is installed whenever an operation is held\<close>

lemma guarded_cong: "guarded s \<Longrightarrow> run s' = run s \<Longrightarrow> handlers s' = handlers s \<Longrightarrow> guarded s'"
  by (simp add: guarded_def)





subsection \<open>A fault under Join\<close>









subsection \<open>After Stop\<close>

lemma stmt_ctx:
  assumes "k < length (body_of c)" "(body_of c ! k) s = Inr s1" "\<forall>p. c \<noteq> Initialize p"
    "ctx (q s) = None"
  shows "ctx (q s1) = None"
  using assms
  by (auto simp: body_of_def Stop_body_def prims nth_Cons
      split: call.splits if_splits option.splits nat.splits)

lemma send_ctx: "send x s = Proceeds s1 \<Longrightarrow> ctx (q s1) = ctx (q s)"
  by (erule send_cases) auto

lemma stopped_update:
  assumes "stopped s" "ctx (q s') = None" "t < length (goroutines s)"
    "goroutines s' = (goroutines s)[t := g]" "set (todo g) \<subseteq> set (todo (goroutines s ! t))"
  shows "stopped s'"
  using assms by (auto simp: stopped_def nth_list_update)

lemma stopped_Go:
  assumes "stopped s" "goroutine_step t s = Some s'"
  shows "stopped s'"
  using assms(2)
proof (cases rule: goroutine_step_cases)
  case (Enqueue f rest k s1)
  with assms(1) send_ctx [of _ s s1] send_goroutines [of _ s s1] show ?thesis
    by (intro stopped_update [OF assms(1), of s' t]) (auto simp: stopped_def)
next
  case (Join f rest k s1)
  with assms(1) send_ctx [of _ s s1] send_goroutines [of _ s s1] show ?thesis
    by (intro stopped_update [OF assms(1), of s' t]) (auto simp: stopped_def)
next
  case (Started startTimeout f rest k)
  with assms(1) show ?thesis
    by (intro stopped_update [OF assms(1), of s' t]) (auto simp: stopped_def)
next
  case (Submit startTimeout f rest started s1)
  with assms(1) send_ctx [of _ s s1] send_goroutines [of _ s s1] show ?thesis
    by (intro stopped_update [OF assms(1), of s' t]) (auto simp: stopped_def)
next
  case (Panic c rest e)
  with assms(1) show ?thesis
    by (intro stopped_update [OF assms(1), of s' t]) (auto simp: stopped_def)
next
  case (Stmt c rest k s1)
  from Stmt(1,2) assms(1) have c: "\<forall>p. c \<noteq> Initialize p" by (auto simp: stopped_def)
  from stmt_ctx [OF Stmt(4,5) c] assms(1) have "ctx (q s1) = None" by (simp add: stopped_def)
  with Stmt stmt_keeps [of k c s s1] show ?thesis
    by (intro stopped_update [OF assms(1), of s' t]) auto
next
  case (Last c rest k s1)
  from Last(1,2) assms(1) have c: "\<forall>p. c \<noteq> Initialize p" by (auto simp: stopped_def)
  from stmt_ctx [OF Last(4,5) c] assms(1) have "ctx (q s1) = None" by (simp add: stopped_def)
  with Last stmt_keeps [of k c s s1] show ?thesis
    by (intro stopped_update [OF assms(1), of s' t]) auto
qed

lemma stopped_cong:
  "stopped s \<Longrightarrow> ctx (q s') = ctx (q s) \<Longrightarrow> goroutines s' = goroutines s \<Longrightarrow> stopped s'"
  by (simp add: stopped_def)

lemma stopped_Worker:
  assumes "stopped s" "Run_step s = Some s'"
  shows "stopped s' \<and> (\<exists>extra. invoked (trace s') = invoked (trace s) @ extra
           \<and> length extra + budget (run s') \<le> budget (run s))"
  using assms(2)
proof (cases rule: Run_step_cases)
  case (Enter k)
  with assms(1) show ?thesis by (simp add: stopped_def)
next
  case (Deliver x v t)
  then have "stopped s'"
    by (intro stopped_update [OF assms(1), of s' t])
       (use assms(1) in \<open>auto simp: stopped_def dest: list.set_sel(2)\<close>)
  with Deliver show ?thesis by simp
qed (use assms(1) in \<open>auto intro: stopped_cong [of s]\<close>)

lemma stopped_step:
  assumes "stopped s" "step a s = Some s'"
  shows "stopped s' \<and> (\<exists>extra. invoked (trace s') = invoked (trace s) @ extra
           \<and> length extra + budget (run s') \<le> budget (run s))"
  using assms(2)
proof (cases rule: step_cases)
  case (Go t)
  from goroutine_step_run [OF Go(2)] have "budget (run s') \<le> budget (run s)" by auto
  with stopped_Go [OF assms(1) Go(2)] goroutine_step_invoked [OF Go(2)] show ?thesis by simp
next
  case Worker
  with assms(1) show ?thesis by (simp add: stopped_Worker)
next
  case Receive
  from Receive(2) assms(1) show ?thesis
    by (cases rule: Run_receive_cases) (auto intro: stopped_cong [of s])
next
  case CtxDone
  from CtxDone(2) assms(1) show ?thesis
    by (cases rule: Run_done_cases) (auto intro: stopped_cong [of s])
next
  case (Tick d)
  with assms(1) show ?thesis by (auto intro: stopped_cong [of s])
next
  case (ParentCancel k)
  with assms(1) show ?thesis by (auto intro: stopped_cong [of s])
qed

lemma stopped_steps:
  assumes "stopped s" "steps sched s = Some s'"
  shows "stopped s' \<and> (\<exists>extra. invoked (trace s') = invoked (trace s) @ extra
           \<and> length extra + budget (run s') \<le> budget (run s))"
  using assms
proof (induction sched arbitrary: s)
  case Nil
  then show ?case by simp
next
  case (Cons a sched)
  from Cons.prems(2) obtain s1 where s1: "step a s = Some s1" "steps sched s1 = Some s'"
    by (auto split: option.splits)
  from stopped_step [OF Cons.prems(1) s1(1)] obtain e1 where 1: "stopped s1"
    "invoked (trace s1) = invoked (trace s) @ e1" "length e1 + budget (run s1) \<le> budget (run s)"
    by blast
  from Cons.IH [OF 1(1) s1(2)] obtain e2 where 2: "stopped s'"
    "invoked (trace s') = invoked (trace s1) @ e2" "length e2 + budget (run s') \<le> budget (run s1)"
    by blast
  from 1 2 show ?case by (intro conjI exI [of _ "e1 @ e2"]) auto
qed

lemma stopped_iff:
  "stopped s \<longleftrightarrow>
     ctx (q s) = None
     \<and> list_all (\<lambda>g. list_all (\<lambda>c. case c of Initialize p \<Rightarrow> False | _ \<Rightarrow> True) (todo g))
          (goroutines s)"
proof -
  have "(case c of Initialize p \<Rightarrow> False | _ \<Rightarrow> True) \<longleftrightarrow> (\<forall>p. c \<noteq> Initialize p)" for c
    by (cases c) simp_all
  then show ?thesis by (simp add: stopped_def list_all_iff all_set_conv_all_nth)
qed

text \<open>Nothing is accepted into a closed channel.\<close>

lemma closed_Go:
  assumes "closed (op (q s))" "goroutine_step t s = Some s'"
  shows "closed (op (q s')) \<and> accepted (trace s') = accepted (trace s)"
  using assms(2)
proof (cases rule: goroutine_step_cases)
  case (Enqueue f rest k s1)
  from Enqueue(4) have "\<not> closed (op (q s))" by (rule send_cases)
  with assms(1) show ?thesis by simp
next
  case (Join f rest k s1)
  from Join(4) have "\<not> closed (op (q s))" by (rule send_cases)
  with assms(1) show ?thesis by simp
next
  case (Started startTimeout f rest k)
  with assms(1) show ?thesis by simp
next
  case (Submit startTimeout f rest started s1)
  from Submit(4) have "\<not> closed (op (q s))" by (rule send_cases)
  with assms(1) show ?thesis by simp
next
  case (Panic c rest e)
  with assms(1) show ?thesis by simp
next
  case (Stmt c rest k s1)
  with assms(1) stmt_keeps [of k c s s1] stmt_closed(1) [of k c s s1] show ?thesis by simp
next
  case (Last c rest k s1)
  with assms(1) stmt_keeps [of k c s s1] stmt_closed(1) [of k c s s1] show ?thesis by simp
qed

lemma closed_step:
  assumes "closed (op (q s))" "step a s = Some s'"
  shows "closed (op (q s')) \<and> accepted (trace s') = accepted (trace s)"
  using assms(2)
proof (cases rule: step_cases)
  case (Go t)
  with assms(1) show ?thesis by (simp add: closed_Go)
next
  case Worker
  from Worker(2) assms(1) show ?thesis by (cases rule: Run_step_cases) auto
next
  case Receive
  from Receive(2) assms(1) show ?thesis by (cases rule: Run_receive_cases) auto
next
  case CtxDone
  from CtxDone(2) assms(1) show ?thesis by (cases rule: Run_done_cases) auto
next
  case (Tick d)
  with assms(1) show ?thesis by simp
next
  case (ParentCancel k)
  with assms(1) show ?thesis by simp
qed

lemma closed_steps:
  "closed (op (q s)) \<Longrightarrow> steps sched s = Some s'
   \<Longrightarrow> closed (op (q s')) \<and> accepted (trace s') = accepted (trace s)"
proof (induction sched arbitrary: s)
  case Nil
  then show ?case by simp
next
  case (Cons a sched)
  from Cons.prems(2) obtain s1 where s1: "step a s = Some s1" "steps sched s1 = Some s'"
    by (auto split: option.splits)
  from closed_step [OF Cons.prems(1) s1(1)] Cons.IH [OF _ s1(2)] show ?case by simp
qed

text \<open>
  C4 (amended). A call of \<open>Stop\<close> has returned, \<open>q.ctx\<close> is nil and no \<open>Initialize\<close>
  follows. From then on nothing more is accepted into the channel, and \<open>Run\<close> calls at
  most one more operation: one it holds already, or the one its \<open>select\<close>, entered
  before, still receives. When \<open>Run\<close> is anywhere else, no operation is called any more.
\<close>

theorem Stop_leaves_at_most_one:
  assumes "NewJobQueue nm lg backlog programs = Inr s0" and "steps sched s0 = Some s"
    and "Return u Stop None \<in> set (trace s)" and "stopped s"
    and "steps sched' s = Some s'"
  shows "closed (op (q s')) \<and> accepted (trace s') = accepted (trace s)
     \<and> (\<exists>extra. invoked (trace s') = invoked (trace s) @ extra
           \<and> length extra \<le> budget (run s))"
proof -
  have "stop_closes s"
    using assms(2) stop_closes_fresh [OF assms(1)] stop_closes_step
    by (rule steps_invariant)
  with assms(3) have "closed (op (q s))" by (auto simp: stop_closes_def)
  from closed_steps [OF this assms(5)] stopped_steps [OF assms(4,5)] show ?thesis by auto
qed

theorem Stop_leaves_at_most_one_witness:
  "\<exists>s s'. steps [Go 0, Go 0, Worker, Worker, Go 1, Go 1, Go 0, Go 0, Go 0, Go 0, Go 0]
          (projr (NewJobQueue ''db'' True 2
             [[Initialize LiveContext, Stop],
              [Enqueue (Func 7 Returns), Enqueue (Func 8 Returns)]])) = Some s
       \<and> Return 0 Stop None \<in> set (trace s)
       \<and> run s = Select 0
       \<and> accepted (trace s) = [Plain (Func 7 Returns), Plain (Func 8 Returns)]
       \<and> invoked (trace s) = []
       \<and> steps [Receive, Worker, Worker, Worker] s = Some s'
       \<and> invoked (trace s') = [Plain (Func 7 Returns)]
       \<and> run s' = RunReturned
       \<and> buf (op (q s')) = [Plain (Func 8 Returns)]
       \<and> closed (op (q s'))
       \<and> accepted (trace s') = [Plain (Func 7 Returns), Plain (Func 8 Returns)]"
proof -
  let ?s0 = "projr (NewJobQueue ''db'' True 2
             [[Initialize LiveContext, Stop],
              [Enqueue (Func 7 Returns), Enqueue (Func 8 Returns)]])"
  let ?sched = "[Go 0, Go 0, Worker, Worker, Go 1, Go 1, Go 0, Go 0, Go 0, Go 0, Go 0]"
  have new: "NewJobQueue ''db'' True 2
             [[Initialize LiveContext, Stop],
              [Enqueue (Func 7 Returns), Enqueue (Func 8 Returns)]] = Inr ?s0"
    by (simp add: NewJobQueue_def)
  have "case steps ?sched ?s0 of None \<Rightarrow> False
        | Some s \<Rightarrow> Return 0 Stop None \<in> set (trace s) \<and> run s = Select 0
            \<and> accepted (trace s) = [Plain (Func 7 Returns), Plain (Func 8 Returns)]
            \<and> invoked (trace s) = []
            \<and> ctx (q s) = None
            \<and> list_all (\<lambda>g. list_all (\<lambda>c. case c of Initialize p \<Rightarrow> False | _ \<Rightarrow> True)
                  (todo g)) (goroutines s)
            \<and> (case steps [Receive, Worker, Worker, Worker] s of None \<Rightarrow> False
               | Some s' \<Rightarrow> invoked (trace s') = [Plain (Func 7 Returns)]
                   \<and> run s' = RunReturned \<and> buf (op (q s')) = [Plain (Func 8 Returns)])"
    by code_simp
  then obtain s s' where s: "steps ?sched ?s0 = Some s" "Return 0 Stop None \<in> set (trace s)"
    "stopped s" "steps [Receive, Worker, Worker, Worker] s = Some s'"
    and more: "run s = Select 0"
    "accepted (trace s) = [Plain (Func 7 Returns), Plain (Func 8 Returns)]"
    "invoked (trace s) = []" "invoked (trace s') = [Plain (Func 7 Returns)]"
    "run s' = RunReturned" "buf (op (q s')) = [Plain (Func 8 Returns)]"
    by (auto split: option.splits simp: stopped_iff)
  from Stop_leaves_at_most_one [OF new s] s more show ?thesis
    by (intro exI [of _ s] exI [of _ s']) simp
qed

text \<open>
  The claim as stated fails: an operation is in the channel, not yet received, when
  \<open>Stop\<close> returns; \<open>Run\<close>, which entered \<open>select\<close> before, receives it afterwards and
  executes it to its end.
\<close>

theorem Stop_leaves_at_most_one_counterexample:
  "(case steps [Go 0, Go 0, Worker, Worker, Go 1, Go 0, Go 0, Go 0, Go 0, Go 0]
           (projr (NewJobQueue ''db'' True 1
              [[Initialize LiveContext, Stop], [Enqueue (Func 7 Returns)]])) of
      None \<Rightarrow> False
    | Some s \<Rightarrow>
        Return 0 Stop None \<in> set (trace s)
        \<and> buf (op (q s)) = [Plain (Func 7 Returns)]
        \<and> invoked (trace s) = []
        \<and> (case steps [Receive, Worker, Worker] s of
              None \<Rightarrow> False
            | Some s' \<Rightarrow>
                trace s' = trace s @ [Invoked (Plain (Func 7 Returns)) None, Begun 7, Ended 7]
                \<and> buf (op (q s')) = []))"
  by code_simp


end
